theory Spec2Isabelle
  imports Complex_Main "HOL-Library.Word" "HOL-Library.Signed_Division"
begin

section \<open>Common types of Parkinglot.cc\<close>

text \<open>
  \<open>TicketId\<close>, \<open>BillId\<close> and every fee quantity are \<open>unsigned long long\<close>: 64-bit words
  whose arithmetic wraps around. A \<open>system_clock::time_point\<close> is kept as its signed 64-bit
  tick count. Strings are \<open>std::string\<close>, a list of bytes.
\<close>

type_synonym ull = "64 word"
type_synonym TicketId = "64 word"
type_synonym BillId = "64 word"
type_synonym time_point = "64 word"

text \<open>
  A C++ \<open>int\<close> is a 32-bit word read in two's complement (\<open>sint\<close>). \<open>int_of_size\<close> is the
  cast \<open>(int)v.size()\<close> of a container size: the low 32 bits of the size, so a size of
  \<open>2^31\<close> or more does not keep its value.
\<close>

type_synonym cint = "32 word"

definition int_of_size :: "nat \<Rightarrow> int" where
  "int_of_size n = sint (word_of_nat n :: cint)"

datatype VehicleType = Bike | Car | Truck
datatype SlotType = TwoWheeler | FourWheeler | Heavy

record Vehicle =
  regNo :: string
  v_type :: VehicleType

fun slotFor :: "VehicleType \<Rightarrow> SlotType" where
  "slotFor Bike = TwoWheeler"
| "slotFor Car = FourWheeler"
| "slotFor Truck = Heavy"

text \<open>
  Every failure of the program is a thrown \<open>runtime_error\<close> carrying its message, except
  the type error the JSON library throws while the configuration is read.
\<close>

datatype error = runtime_error string | json_type_error

abbreviation NoCapacity :: error where
  "NoCapacity \<equiv> runtime_error ''No free slot available''"
abbreviation InvalidTicket :: error where
  "InvalidTicket \<equiv> runtime_error ''Invalid or already-closed ticket''"
abbreviation SlotInconsistency :: "string \<Rightarrow> error" where
  "SlotInconsistency sid \<equiv> runtime_error (''Slot referenced by ticket not found: '' @ sid)"
abbreviation BillNotFound :: error where
  "BillNotFound \<equiv> runtime_error ''Bill not found''"
abbreviation NotPayable :: error where
  "NotPayable \<equiv> runtime_error ''Bill is not payable (status != Pending)''"
abbreviation AlreadyPaid :: error where
  "AlreadyPaid \<equiv> runtime_error ''Cannot cancel a paid bill''"
abbreviation PaymentDeclined :: "string \<Rightarrow> error" where
  "PaymentDeclined reason \<equiv> runtime_error (''Payment failed: '' @ reason)"
abbreviation TicketNotFound :: error where
  "TicketNotFound \<equiv> runtime_error ''Ticket not found for adjustInTime''"

subsection \<open>\<open>std::unordered_map\<close> as a list of key/value pairs\<close>

text \<open>
  The program never iterates over its two hash tables, so their order is immaterial; the
  list keeps \<open>size()\<close> computable. \<open>emplace\<close> inserts only when the key is absent,
  \<open>erase\<close> removes the key, and a write through an iterator changes the stored value.
\<close>

definition um_find :: "('k \<times> 'v) list \<Rightarrow> 'k \<Rightarrow> 'v option" where
  "um_find m k = map_of m k"

definition um_emplace :: "'k \<Rightarrow> 'v \<Rightarrow> ('k \<times> 'v) list \<Rightarrow> ('k \<times> 'v) list" where
  "um_emplace k v m = (if map_of m k = None then m @ [(k, v)] else m)"

definition um_erase :: "'k \<Rightarrow> ('k \<times> 'v) list \<Rightarrow> ('k \<times> 'v) list" where
  "um_erase k m = filter (\<lambda>kv. fst kv \<noteq> k) m"

definition um_modify :: "'k \<Rightarrow> ('v \<Rightarrow> 'v) \<Rightarrow> ('k \<times> 'v) list \<Rightarrow> ('k \<times> 'v) list" where
  "um_modify k f m = map (\<lambda>kv. if fst kv = k then (fst kv, f (snd kv)) else kv) m"

section \<open>Slots and floors\<close>

record ParkingSlot =
  slot_id :: string
  slot_type :: SlotType
  isFree :: bool

record Floor =
  floorNo :: cint
  slots :: "ParkingSlot list"

text \<open>
  \<open>Floor::findFreeIndex\<close>: the loop \<open>for (int i = 0; i < (int)slots.size(); ++i)\<close>.
  \<open>findFreeIndex_from\<close> is the loop at index \<open>i\<close> with bound \<open>n\<close>, its first argument being
  the slots from index \<open>i\<close> on: it returns the first index whose slot has the type and is
  free, and \<open>-1\<close> when the loop ends. The index stays below the bound, which is an \<open>int\<close>,
  so \<open>++i\<close> never overflows.
\<close>

fun findFreeIndex_from :: "ParkingSlot list \<Rightarrow> SlotType \<Rightarrow> int \<Rightarrow> int \<Rightarrow> int" where
  "findFreeIndex_from [] t i n = - 1"
| "findFreeIndex_from (s # rest) t i n =
     (if i < n
      then (if slot_type s = t \<and> isFree s then i else findFreeIndex_from rest t (i + 1) n)
      else - 1)"

definition findFreeIndex :: "Floor \<Rightarrow> SlotType \<Rightarrow> int" where
  "findFreeIndex fl t = findFreeIndex_from (slots fl) t 0 (int_of_size (length (slots fl)))"

section \<open>Tickets\<close>

record Ticket =
  tk_id :: TicketId
  tk_entryGateId :: string
  tk_inTime :: time_point
  tk_slotId :: string
  tk_vtype :: VehicleType
  tk_stype :: SlotType
  tk_vehicleReg :: string

record TicketingService =
  nextId :: TicketId

text \<open>
  \<open>openTicket\<close> draws the identifier with \<open>fetch_add(1)\<close> (the old value is the ticket's id,
  the counter wraps at \<open>2^64\<close>) and reads the clock, here the argument \<open>now\<close>.
\<close>

definition openTicket ::
  "TicketingService \<Rightarrow> string \<Rightarrow> ParkingSlot \<Rightarrow> Vehicle \<Rightarrow> time_point
     \<Rightarrow> Ticket \<times> TicketingService" where
  "openTicket svc gate slot v now =
     (\<lparr>tk_id = nextId svc, tk_entryGateId = gate, tk_inTime = now, tk_slotId = slot_id slot,
       tk_vtype = v_type v, tk_stype = slot_type slot, tk_vehicleReg = regNo v\<rparr>,
      svc\<lparr>nextId := nextId svc + 1\<rparr>)"

section \<open>Pricing\<close>

record FeeBreakup =
  fb_amount :: ull
  fb_billedHours :: ull
  fb_parkedMinutes :: ull

definition ceilHours :: "ull \<Rightarrow> ull" where
  "ceilHours minutes = (if minutes = 0 then 0 else (minutes + 59) div 60)"

definition GRACE_MINUTES :: ull where
  "GRACE_MINUTES = 10"

definition TwoWheelerFee_compute :: "ull \<Rightarrow> FeeBreakup" where
  "TwoWheelerFee_compute minutes =
     (if minutes \<le> GRACE_MINUTES
      then \<lparr>fb_amount = 0, fb_billedHours = 0, fb_parkedMinutes = minutes\<rparr>
      else let hours = ceilHours minutes
           in \<lparr>fb_amount = hours * 10, fb_billedHours = hours, fb_parkedMinutes = minutes\<rparr>)"

definition FourWheelerFee_compute :: "ull \<Rightarrow> FeeBreakup" where
  "FourWheelerFee_compute minutes =
     (if minutes \<le> GRACE_MINUTES
      then \<lparr>fb_amount = 0, fb_billedHours = 0, fb_parkedMinutes = minutes\<rparr>
      else let hours = ceilHours minutes
           in \<lparr>fb_amount = hours * 20, fb_billedHours = hours, fb_parkedMinutes = minutes\<rparr>)"

definition HeavyFee_compute :: "ull \<Rightarrow> FeeBreakup" where
  "HeavyFee_compute minutes =
     (if minutes \<le> GRACE_MINUTES
      then \<lparr>fb_amount = 0, fb_billedHours = 0, fb_parkedMinutes = minutes\<rparr>
      else let hours = ceilHours minutes
           in \<lparr>fb_amount = hours * 50, fb_billedHours = hours, fb_parkedMinutes = minutes\<rparr>)"

text \<open>
  \<open>FeeStrategyFactory::make(s)->compute(minutes)\<close>: the strategy is chosen by the slot
  type. The factory's final \<open>throw\<close> is past a switch over all three enumerators.
\<close>

fun compute :: "SlotType \<Rightarrow> ull \<Rightarrow> FeeBreakup" where
  "compute TwoWheeler minutes = TwoWheelerFee_compute minutes"
| "compute FourWheeler minutes = FourWheelerFee_compute minutes"
| "compute Heavy minutes = HeavyFee_compute minutes"

section \<open>Billing and payment\<close>

datatype BillStatus = Pending | Paid | Failed | Cancelled

record Bill =
  b_id :: BillId
  b_ticket :: TicketId
  b_vehicleReg :: string
  b_slotId :: string
  b_entryGateId :: string
  b_exitGateId :: string
  b_inTime :: time_point
  b_outTime :: time_point
  b_parkedMinutes :: ull
  b_billedHours :: ull
  b_amount :: ull
  b_status :: BillStatus

record Receipt =
  r_bill :: BillId
  r_ticket :: TicketId
  r_amount :: ull
  r_method :: string
  r_paidAt :: time_point

datatype PaymentMethod = Cash | Card | UPI

record PaymentRequest =
  req_bill :: BillId
  req_amount :: ull
  req_method :: PaymentMethod
  req_cardNumber :: string
  req_upiVPA :: string

text \<open>
  \<open>std::string::find(char)\<close>: the index of the first occurrence, \<open>None\<close> standing for
  \<open>npos\<close>.
\<close>

fun string_find_from :: "string \<Rightarrow> char \<Rightarrow> nat \<Rightarrow> nat option" where
  "string_find_from [] c i = None"
| "string_find_from (x # xs) c i = (if x = c then Some i else string_find_from xs c (Suc i))"

definition string_find :: "string \<Rightarrow> char \<Rightarrow> nat option" where
  "string_find s c = string_find_from s c 0"

text \<open>
  \<open>charge(req, failureReason)\<close> of the three processors: the result and the content of
  the out-parameter \<open>failureReason\<close> after the call.
\<close>

definition CashProcessor_charge :: "PaymentRequest \<Rightarrow> string \<Rightarrow> bool \<times> string" where
  "CashProcessor_charge req failureReason = (True, failureReason)"

definition CardProcessor_charge :: "PaymentRequest \<Rightarrow> string \<Rightarrow> bool \<times> string" where
  "CardProcessor_charge req failureReason =
     (if length (req_cardNumber req) < 8 then (False, ''Card declined (invalid number)'')
      else (True, failureReason))"

definition UPIProcessor_charge :: "PaymentRequest \<Rightarrow> string \<Rightarrow> bool \<times> string" where
  "UPIProcessor_charge req failureReason =
     (if string_find (req_upiVPA req) (CHR ''@'') = None then (False, ''UPI failed (invalid VPA)'')
      else (True, failureReason))"

text \<open>
  \<open>makeProcessor(m)\<close> picks the processor by the method; the virtual calls \<open>charge\<close> and
  \<open>name\<close> on the object it returns are dispatched on the method here.
\<close>

fun charge :: "PaymentMethod \<Rightarrow> PaymentRequest \<Rightarrow> string \<Rightarrow> bool \<times> string" where
  "charge Cash req failureReason = CashProcessor_charge req failureReason"
| "charge Card req failureReason = CardProcessor_charge req failureReason"
| "charge UPI req failureReason = UPIProcessor_charge req failureReason"

fun processor_name :: "PaymentMethod \<Rightarrow> string" where
  "processor_name Cash = ''Cash''"
| "processor_name Card = ''Card''"
| "processor_name UPI = ''UPI''"

subsection \<open>\<open>PaymentService\<close>\<close>

text \<open>The members \<open>bills_\<close> and \<open>nextBill_\<close>, written without the trailing underscore.\<close>

record PaymentService =
  bills :: "(BillId \<times> Bill) list"
  nextBill :: BillId

definition createBill ::
  "PaymentService \<Rightarrow> Ticket \<Rightarrow> string \<Rightarrow> FeeBreakup \<Rightarrow> time_point \<Rightarrow> Bill \<times> PaymentService" where
  "createBill svc tk exitGate fb now =
     (let b = \<lparr>b_id = nextBill svc, b_ticket = tk_id tk, b_vehicleReg = tk_vehicleReg tk,
                b_slotId = tk_slotId tk, b_entryGateId = tk_entryGateId tk,
                b_exitGateId = exitGate, b_inTime = tk_inTime tk, b_outTime = now,
                b_parkedMinutes = fb_parkedMinutes fb, b_billedHours = fb_billedHours fb,
                b_amount = fb_amount fb, b_status = Pending\<rparr>
      in (b, svc\<lparr>bills := um_emplace (b_id b) b (bills svc), nextBill := nextBill svc + 1\<rparr>))"

definition get :: "PaymentService \<Rightarrow> BillId \<Rightarrow> Bill option" where
  "get svc bid = um_find (bills svc) bid"

text \<open>
  \<open>PaymentService::pay\<close>. The result has three parts: the receipt or the error thrown,
  the processors whose \<open>charge\<close> ran during the call (in order), and the service after
  the call. A throw keeps the writes made before it, so the declined branch returns the
  service with the bill already \<open>Failed\<close>.
\<close>

definition pay ::
  "PaymentService \<Rightarrow> PaymentRequest \<Rightarrow> time_point
     \<Rightarrow> (error + Receipt) \<times> PaymentMethod list \<times> PaymentService" where
  "pay svc req now =
     (case um_find (bills svc) (req_bill req) of
        None \<Rightarrow> (Inl BillNotFound, [], svc)
      | Some b \<Rightarrow>
          if b_status b = Paid then
            (Inr \<lparr>r_bill = b_id b, r_ticket = b_ticket b, r_amount = b_amount b,
                  r_method = ''ALREADY_PAID'', r_paidAt = now\<rparr>, [], svc)
          else if b_status b \<noteq> Pending then (Inl NotPayable, [], svc)
          else
            (case charge (req_method req) req [] of
               (ok, reason) \<Rightarrow>
                 if \<not> ok then
                   (Inl (PaymentDeclined reason), [req_method req],
                    svc\<lparr>bills := um_modify (req_bill req) (\<lambda>x. x\<lparr>b_status := Failed\<rparr>) (bills svc)\<rparr>)
                 else
                   (Inr \<lparr>r_bill = b_id b, r_ticket = b_ticket b, r_amount = b_amount b,
                         r_method = processor_name (req_method req), r_paidAt = now\<rparr>,
                    [req_method req],
                    svc\<lparr>bills := um_modify (req_bill req) (\<lambda>x. x\<lparr>b_status := Paid\<rparr>) (bills svc)\<rparr>)))"

definition cancel :: "PaymentService \<Rightarrow> BillId \<Rightarrow> (error + unit) \<times> PaymentService" where
  "cancel svc bid =
     (case um_find (bills svc) bid of
        None \<Rightarrow> (Inl BillNotFound, svc)
      | Some b \<Rightarrow>
          if b_status b = Paid then (Inl AlreadyPaid, svc)
          else (Inr (), svc\<lparr>bills := um_modify bid (\<lambda>x. x\<lparr>b_status := Cancelled\<rparr>) (bills svc)\<rparr>))"

definition reset :: "PaymentService \<Rightarrow> PaymentService" where
  "reset svc = svc\<lparr>bills := [], nextBill := 1\<rparr>"

section \<open>The parking lot\<close>

text \<open>
  The members \<open>floors_\<close>, \<open>active_\<close>, \<open>ticketSvc_\<close> and \<open>paymentSvc_\<close>, written without
  the trailing underscore. The mutex serialises the calls; the model is the sequential
  behaviour of one call after another.
\<close>

record ParkingLot =
  floors :: "Floor list"
  active :: "(TicketId \<times> Ticket) list"
  ticketSvc :: TicketingService
  paymentSvc :: PaymentService

text \<open>The default-constructed lot.\<close>

definition ParkingLot_init :: ParkingLot where
  "ParkingLot_init =
     \<lparr>floors = [], active = [], ticketSvc = \<lparr>nextId = 1\<rparr>,
      paymentSvc = \<lparr>bills = [], nextBill = 1\<rparr>\<rparr>"

definition configure :: "ParkingLot \<Rightarrow> Floor list \<Rightarrow> ParkingLot" where
  "configure lot fs =
     lot\<lparr>floors := fs, active := [], ticketSvc := (ticketSvc lot)\<lparr>nextId := 1\<rparr>,
         paymentSvc := reset (paymentSvc lot)\<rparr>"

text \<open>
  The floor loop of \<open>enterVehicle\<close>, \<open>for (int f = 0; f < (int)floors_.size(); ++f)\<close>, at
  index \<open>f\<close> with bound \<open>n\<close>: the pair \<open>(chosenFloor, idx)\<close> when the loop is left. \<open>idx\<close> is
  overwritten by every call of \<open>findFreeIndex\<close>, so it is \<open>-1\<close> whenever \<open>chosenFloor\<close> is.
\<close>

fun enter_scan :: "Floor list \<Rightarrow> SlotType \<Rightarrow> int \<Rightarrow> int \<Rightarrow> int \<times> int" where
  "enter_scan [] need f n = (- 1, - 1)"
| "enter_scan (fl # rest) need f n =
     (if f < n
      then (let idx = findFreeIndex fl need
            in if idx \<noteq> - 1 then (f, idx) else enter_scan rest need (f + 1) n)
      else (- 1, - 1))"

text \<open>
  A write of \<open>isFree\<close> through a reference or pointer to the slot at index \<open>i\<close> of floor
  \<open>f\<close>.
\<close>

definition set_isFree :: "Floor list \<Rightarrow> nat \<Rightarrow> nat \<Rightarrow> bool \<Rightarrow> Floor list" where
  "set_isFree fs f i v =
     fs[f := (fs ! f)\<lparr>slots := (slots (fs ! f))[i := (slots (fs ! f) ! i)\<lparr>isFree := v\<rparr>]\<rparr>]"

definition enterVehicle ::
  "ParkingLot \<Rightarrow> string \<Rightarrow> Vehicle \<Rightarrow> time_point \<Rightarrow> (error + TicketId) \<times> ParkingLot" where
  "enterVehicle lot entryGate v now =
     (let need = slotFor (v_type v)
      in case enter_scan (floors lot) need 0 (int_of_size (length (floors lot))) of
           (chosenFloor, idx) \<Rightarrow>
             if chosenFloor = - 1 then (Inl NoCapacity, lot)
             else
               let fs = set_isFree (floors lot) (nat chosenFloor) (nat idx) False;
                   slot = slots (fs ! nat chosenFloor) ! nat idx
               in case openTicket (ticketSvc lot) entryGate slot v now of
                    (tk, svc) \<Rightarrow>
                      (Inr (tk_id tk),
                       lot\<lparr>floors := fs, active := um_emplace (tk_id tk) tk (active lot),
                           ticketSvc := svc\<rparr>))"

text \<open>
  \<open>findSlotById_nolock\<close>: the pointer it returns is the position (floor index, slot
  index) of the first slot with the identifier, \<open>None\<close> for \<open>nullptr\<close>.
\<close>

fun find_in_slots :: "ParkingSlot list \<Rightarrow> string \<Rightarrow> nat \<Rightarrow> nat option" where
  "find_in_slots [] sid i = None"
| "find_in_slots (s # rest) sid i =
     (if slot_id s = sid then Some i else find_in_slots rest sid (Suc i))"

fun findSlotById_from :: "Floor list \<Rightarrow> string \<Rightarrow> nat \<Rightarrow> (nat \<times> nat) option" where
  "findSlotById_from [] sid f = None"
| "findSlotById_from (fl # rest) sid f =
     (case find_in_slots (slots fl) sid 0 of
        Some i \<Rightarrow> Some (f, i)
      | None \<Rightarrow> findSlotById_from rest sid (Suc f))"

definition findSlotById_nolock :: "ParkingLot \<Rightarrow> string \<Rightarrow> (nat \<times> nat) option" where
  "findSlotById_nolock lot sid = findSlotById_from (floors lot) sid 0"

text \<open>
  The parked minutes of \<open>exitVehicle\<close>: \<open>duration_cast<minutes>(now - inTime).count()\<close>
  truncates towards zero, a negative count is replaced by 0, and the cast to
  \<open>unsigned long long\<close> keeps the value. The clock ticks in nanoseconds.
\<close>

definition ticks_per_minute :: int where
  "ticks_per_minute = 60000000000"

definition elapsed_minutes :: "time_point \<Rightarrow> time_point \<Rightarrow> ull" where
  "elapsed_minutes inTime now =
     (let mins = sint (now - inTime) sdiv ticks_per_minute
      in word_of_int (if mins < 0 then 0 else mins))"

definition LOST_TICKET_PENALTY :: ull where
  "LOST_TICKET_PENALTY = 200"

text \<open>
  \<open>exitVehicle\<close> reads the clock twice: \<open>now\<close> for the parked time and, inside
  \<open>createBill\<close>, \<open>billNow\<close> for the bill's \<open>outTime\<close>. The ticket is erased from the table
  before the slot is looked up, so the throw for a missing slot returns the lot without
  the ticket.
\<close>

definition exitVehicle ::
  "ParkingLot \<Rightarrow> TicketId \<Rightarrow> string \<Rightarrow> bool \<Rightarrow> time_point \<Rightarrow> time_point
     \<Rightarrow> (error + Bill) \<times> ParkingLot" where
  "exitVehicle lot tid exitGate lostTicket now billNow =
     (case um_find (active lot) tid of
        None \<Rightarrow> (Inl InvalidTicket, lot)
      | Some tk \<Rightarrow>
          let lot1 = lot\<lparr>active := um_erase tid (active lot)\<rparr>
          in case findSlotById_nolock lot1 (tk_slotId tk) of
               None \<Rightarrow> (Inl (SlotInconsistency (tk_slotId tk)), lot1)
             | Some (f, i) \<Rightarrow>
                 let lot2 = lot1\<lparr>floors := set_isFree (floors lot1) f i True\<rparr>;
                     fb = compute (tk_stype tk) (elapsed_minutes (tk_inTime tk) now);
                     fb2 = (if lostTicket
                            then fb\<lparr>fb_amount := fb_amount fb + LOST_TICKET_PENALTY\<rparr>
                            else fb)
                 in case createBill (paymentSvc lot2) tk exitGate fb2 billNow of
                      (bill, psvc) \<Rightarrow> (Inr bill, lot2\<lparr>paymentSvc := psvc\<rparr>))"

definition payBill ::
  "ParkingLot \<Rightarrow> PaymentRequest \<Rightarrow> time_point
     \<Rightarrow> (error + Receipt) \<times> PaymentMethod list \<times> ParkingLot" where
  "payBill lot req now =
     (case pay (paymentSvc lot) req now of
        (res, charged, psvc) \<Rightarrow> (res, charged, lot\<lparr>paymentSvc := psvc\<rparr>))"

text \<open>\<open>minutesBack\<close> is a \<open>long long\<close>; its conversion to clock ticks wraps here.\<close>

definition adjustInTimeForTest ::
  "ParkingLot \<Rightarrow> TicketId \<Rightarrow> 64 word \<Rightarrow> (error + unit) \<times> ParkingLot" where
  "adjustInTimeForTest lot tid minutesBack =
     (case um_find (active lot) tid of
        None \<Rightarrow> (Inl TicketNotFound, lot)
      | Some tk \<Rightarrow>
          (Inr (),
           lot\<lparr>active :=
                 um_modify tid
                   (\<lambda>t. t\<lparr>tk_inTime := tk_inTime t - minutesBack * word_of_int ticks_per_minute\<rparr>)
                   (active lot)\<rparr>))"

text \<open>
  \<open>occupancy\<close>: the three \<open>int\<close> counters \<open>(freeCnt, usedCnt, total)\<close> after the two loops.
  An \<open>int\<close> that is incremented past \<open>2^31 - 1\<close> wraps around here (the overflow is
  undefined in C++).
\<close>

definition occupancy :: "ParkingLot \<Rightarrow> cint \<times> cint \<times> cint" where
  "occupancy lot =
     fold (\<lambda>f acc.
             fold (\<lambda>s (freeCnt, usedCnt, total).
                     if isFree s then (freeCnt + 1, usedCnt, total + 1)
                     else (freeCnt, usedCnt + 1, total + 1))
                  (slots f) acc)
          (floors lot) (0, 0, 0)"

definition activeCount :: "ParkingLot \<Rightarrow> nat" where
  "activeCount lot = length (active lot)"

section \<open>Loading the configuration\<close>

text \<open>
  A parsed JSON document. \<open>loadConfigFromJson\<close> is modelled from the point where the file
  has been opened and parsed into \<open>j\<close>; numbers are integers. The accessors follow the JSON
  library: \<open>contains\<close> is false on anything but an object holding the key, \<open>get<int>\<close>
  accepts a number or a boolean and keeps its low 32 bits, \<open>get<string>\<close> accepts a string,
  and both throw the library's type error otherwise.
\<close>

datatype json =
  JNull
| JBool bool
| JNumber int
| JString string
| JArray "json list"
| JObject "(string \<times> json) list"

definition must :: "json \<Rightarrow> string \<Rightarrow> error + json" where
  "must j key =
     (case j of
        JObject kvs \<Rightarrow>
          (case map_of kvs key of
             Some v \<Rightarrow> Inr v
           | None \<Rightarrow> Inl (runtime_error (''Config missing key: '' @ key)))
      | _ \<Rightarrow> Inl (runtime_error (''Config missing key: '' @ key)))"

definition get_int :: "json \<Rightarrow> error + cint" where
  "get_int j =
     (case j of
        JNumber n \<Rightarrow> Inr (word_of_int n)
      | JBool b \<Rightarrow> Inr (if b then 1 else 0)
      | _ \<Rightarrow> Inl json_type_error)"

definition get_string :: "json \<Rightarrow> error + string" where
  "get_string j = (case j of JString s \<Rightarrow> Inr s | _ \<Rightarrow> Inl json_type_error)"

definition slotTypeFromString :: "string \<Rightarrow> error + SlotType" where
  "slotTypeFromString s =
     (if s = ''TwoWheeler'' then Inr TwoWheeler
      else if s = ''FourWheeler'' then Inr FourWheeler
      else if s = ''Heavy'' then Inr Heavy
      else Inl (runtime_error (''Invalid SlotType in config: '' @ s)))"

text \<open>\<open>std::to_string\<close> of an \<open>int\<close>: the decimal digits, with a minus sign when negative.\<close>

fun nat_to_string :: "nat \<Rightarrow> string" where
  "nat_to_string n =
     (if n < 10 then [''0123456789'' ! n]
      else nat_to_string (n div 10) @ [''0123456789'' ! (n mod 10)])"

definition to_string :: "cint \<Rightarrow> string" where
  "to_string i =
     (if sint i < 0 then CHR ''-'' # nat_to_string (nat (- sint i)) else nat_to_string (nat (sint i)))"

text \<open>The loop over the slots of one floor, each slot pushed back with \<open>isFree = true\<close>.\<close>

fun load_slots :: "json list \<Rightarrow> error + ParkingSlot list" where
  "load_slots [] = Inr []"
| "load_slots (js # rest) =
     (case must js ''id'' of
        Inl e \<Rightarrow> Inl e
      | Inr jid \<Rightarrow>
          (case get_string jid of
             Inl e \<Rightarrow> Inl e
           | Inr sid \<Rightarrow>
               (case must js ''type'' of
                  Inl e \<Rightarrow> Inl e
                | Inr jtype \<Rightarrow>
                    (case get_string jtype of
                       Inl e \<Rightarrow> Inl e
                     | Inr tname \<Rightarrow>
                         (case slotTypeFromString tname of
                            Inl e \<Rightarrow> Inl e
                          | Inr t \<Rightarrow>
                              (case load_slots rest of
                                 Inl e \<Rightarrow> Inl e
                               | Inr ss \<Rightarrow>
                                   Inr (\<lparr>slot_id = sid, slot_type = t, isFree = True\<rparr> # ss)))))))"

text \<open>The loop over the floors; a floor that ends with no slot is rejected.\<close>

fun load_floors :: "json list \<Rightarrow> error + Floor list" where
  "load_floors [] = Inr []"
| "load_floors (jf # rest) =
     (case must jf ''floorNo'' of
        Inl e \<Rightarrow> Inl e
      | Inr jno \<Rightarrow>
          (case get_int jno of
             Inl e \<Rightarrow> Inl e
           | Inr no \<Rightarrow>
               (case must jf ''slots'' of
                  Inl e \<Rightarrow> Inl e
                | Inr jslots \<Rightarrow>
                    (case jslots of
                       JArray xs \<Rightarrow>
                         (case load_slots xs of
                            Inl e \<Rightarrow> Inl e
                          | Inr ss \<Rightarrow>
                              if ss = []
                              then Inl (runtime_error
                                     (''Floor '' @ to_string no @ '' has no slots in config''))
                              else (case load_floors rest of
                                      Inl e \<Rightarrow> Inl e
                                    | Inr fs \<Rightarrow> Inr (\<lparr>floorNo = no, slots = ss\<rparr> # fs)))
                     | _ \<Rightarrow>
                         Inl (runtime_error
                               (''Config 'slots' must be an array for floor '' @ to_string no))))))"

definition loadConfigFromJson :: "json \<Rightarrow> error + Floor list" where
  "loadConfigFromJson j =
     (case must j ''floors'' of
        Inl e \<Rightarrow> Inl e
      | Inr jfloors \<Rightarrow>
          (case jfloors of
             JArray xs \<Rightarrow>
               (case load_floors xs of
                  Inl e \<Rightarrow> Inl e
                | Inr fs \<Rightarrow>
                    if fs = [] then Inl (runtime_error ''Config has zero floors'') else Inr fs)
           | _ \<Rightarrow> Inl (runtime_error ''Config 'floors' must be an array'')))"

section \<open>Notions used to state the properties\<close>

text \<open>The hourly rates as the specification lists them.\<close>

definition rate_per_hour :: "SlotType \<Rightarrow> nat" where
  "rate_per_hour s = (case s of TwoWheeler \<Rightarrow> 10 | FourWheeler \<Rightarrow> 20 | Heavy \<Rightarrow> 50)"

text \<open>
  Examples: the ticket and the pending bill of a two-wheeler parked 95 minutes, the
  ledger holding that bill in a given status, and a card payment for it.
\<close>

definition example_ticket :: Ticket where
  "example_ticket =
     \<lparr>tk_id = 1, tk_entryGateId = ''E1'', tk_inTime = 0, tk_slotId = ''F1-S1'',
      tk_vtype = Bike, tk_stype = TwoWheeler, tk_vehicleReg = ''UP80 HM 8086''\<rparr>"

definition example_bill :: Bill where
  "example_bill =
     \<lparr>b_id = 1, b_ticket = 1, b_vehicleReg = ''UP80 HM 8086'', b_slotId = ''F1-S1'',
      b_entryGateId = ''E1'', b_exitGateId = ''X1'', b_inTime = 0, b_outTime = 7,
      b_parkedMinutes = 95, b_billedHours = 2, b_amount = 20, b_status = Pending\<rparr>"

definition example_service :: "BillStatus \<Rightarrow> PaymentService" where
  "example_service st = \<lparr>bills = [(1, example_bill\<lparr>b_status := st\<rparr>)], nextBill = 2\<rparr>"

definition card_request :: "string \<Rightarrow> PaymentRequest" where
  "card_request number =
     \<lparr>req_bill = 1, req_amount = 20, req_method = Card, req_cardNumber = number,
      req_upiVPA = []\<rparr>"

text \<open>
  A slot a vehicle needing type \<open>t\<close> can take: of that type, and free. \<open>seen xs\<close> are the
  elements of a vector that a loop bounded by \<open>(int)xs.size()\<close> visits, all of them when
  the size is below \<open>2^31\<close>; \<open>has_free t fl\<close> says that the loop of \<open>findFreeIndex\<close> meets
  such a slot on the floor.
\<close>

definition free_of :: "SlotType \<Rightarrow> ParkingSlot \<Rightarrow> bool" where
  "free_of t s = (slot_type s = t \<and> isFree s)"

definition seen :: "'a list \<Rightarrow> 'a list" where
  "seen xs = take (nat (int_of_size (length xs))) xs"

definition has_free :: "SlotType \<Rightarrow> Floor \<Rightarrow> bool" where
  "has_free t fl = (\<exists>s \<in> set (seen (slots fl)). free_of t s)"

text \<open>
  Examples: a layout of two floors with two two-wheeler slots and one four-wheeler slot,
  the lot configured with it, and two vehicles.
\<close>

definition example_floors :: "Floor list" where
  "example_floors =
     [\<lparr>floorNo = 1,
       slots = [\<lparr>slot_id = ''F1-S1'', slot_type = TwoWheeler, isFree = True\<rparr>,
                \<lparr>slot_id = ''F1-S2'', slot_type = FourWheeler, isFree = True\<rparr>]\<rparr>,
      \<lparr>floorNo = 2,
       slots = [\<lparr>slot_id = ''F2-S1'', slot_type = TwoWheeler, isFree = True\<rparr>]\<rparr>]"

definition example_lot :: ParkingLot where
  "example_lot = configure ParkingLot_init example_floors"

definition bike :: Vehicle where
  "bike = \<lparr>regNo = ''UP80 HM 8086'', v_type = Bike\<rparr>"

definition car :: Vehicle where
  "car = \<lparr>regNo = ''DL8CAF1234'', v_type = Car\<rparr>"

text \<open>Example: the lot after a car entered at tick 0.\<close>

definition car_lot :: ParkingLot where
  "car_lot = snd (enterVehicle example_lot ''E2'' car 0)"

text \<open>
  The slots of all floors in scan order, the number of occupied slots, and runs of
  successful \<open>enterVehicle\<close> and \<open>exitVehicle\<close> calls: \<open>run_calls\<close> is the lot after the
  calls, \<open>None\<close> as soon as a call fails.
\<close>

definition all_slots :: "Floor list \<Rightarrow> ParkingSlot list" where
  "all_slots fs = concat (map slots fs)"

definition occupied_count :: "ParkingLot \<Rightarrow> nat" where
  "occupied_count lot = length (filter (\<lambda>s. \<not> isFree s) (all_slots (floors lot)))"

datatype call =
  Enter string Vehicle time_point
| Exit TicketId string bool time_point time_point

fun perform :: "ParkingLot \<Rightarrow> call \<Rightarrow> ParkingLot option" where
  "perform lot (Enter gate v now) =
     (case enterVehicle lot gate v now of (Inl e, lot') \<Rightarrow> None | (Inr tid, lot') \<Rightarrow> Some lot')"
| "perform lot (Exit tid gate lost now billNow) =
     (case exitVehicle lot tid gate lost now billNow of
        (Inl e, lot') \<Rightarrow> None
      | (Inr bill, lot') \<Rightarrow> Some lot')"

fun run_calls :: "ParkingLot \<Rightarrow> call list \<Rightarrow> ParkingLot option" where
  "run_calls lot [] = Some lot"
| "run_calls lot (c # cs) =
     (case perform lot c of None \<Rightarrow> None | Some lot' \<Rightarrow> run_calls lot' cs)"

text \<open>
  The number of \<open>enterVehicle\<close> calls of a run. The identifiers of the occupied slots,
  and the invariant of a lot that has issued \<open>n\<close> tickets since it was configured: slot
  identifiers are pairwise distinct, the active tickets have distinct keys and distinct
  slots, the slots they name are exactly the occupied ones, the counter stands at
  \<open>n + 1\<close> and every key is one of the \<open>n\<close> identifiers issued.
\<close>

fun is_Enter :: "call \<Rightarrow> bool" where
  "is_Enter (Enter gate v now) = True"
| "is_Enter (Exit tid gate lost now billNow) = False"

definition enter_calls :: "call list \<Rightarrow> nat" where
  "enter_calls cs = length (filter is_Enter cs)"

definition occupied_ids :: "ParkingSlot list \<Rightarrow> string set" where
  "occupied_ids xs = set (map slot_id (filter (\<lambda>s. \<not> isFree s) xs))"

definition lot_inv :: "nat \<Rightarrow> ParkingLot \<Rightarrow> bool" where
  "lot_inv n lot \<longleftrightarrow>
     distinct (map slot_id (all_slots (floors lot))) \<and>
     distinct (map fst (active lot)) \<and>
     distinct (map (\<lambda>kv. tk_slotId (snd kv)) (active lot)) \<and>
     (\<lambda>kv. tk_slotId (snd kv)) ` set (active lot) = occupied_ids (all_slots (floors lot)) \<and>
     nextId (ticketSvc lot) = word_of_nat (Suc n) \<and>
     (\<forall>kv \<in> set (active lot). \<exists>j. 1 \<le> j \<and> j \<le> n \<and> fst kv = word_of_nat j)"

text \<open>
  Examples: a run of three calls on the example lot; a layout whose two slots share the
  identifier \<open>A\<close>, with a run of two entries and two exits; a layout whose only slot is
  occupied; and a layout of two slots \<open>A\<close> and \<open>B\<close> with a run of \<open>2^64 + 1\<close> entries: one
  bike stays, and \<open>2^64 - 1\<close> bikes enter and leave one after the other with the tickets
  \<open>2, 3, ...\<close> up to \<open>2^64\<close>, which is ticket 0, before a last bike enters.
\<close>

definition example_calls :: "call list" where
  "example_calls = [Enter ''E1'' bike 0, Enter ''E2'' car 0, Exit 1 ''X1'' False 5 5]"

definition dup_floors :: "Floor list" where
  "dup_floors =
     [\<lparr>floorNo = 1,
       slots = [\<lparr>slot_id = ''A'', slot_type = TwoWheeler, isFree = True\<rparr>,
                \<lparr>slot_id = ''A'', slot_type = TwoWheeler, isFree = True\<rparr>]\<rparr>]"

definition dup_calls :: "call list" where
  "dup_calls =
     [Enter ''E1'' bike 0, Enter ''E1'' bike 1, Exit 1 ''X1'' False 2 2, Exit 2 ''X1'' False 3 3]"

definition occupied_floors :: "Floor list" where
  "occupied_floors =
     [\<lparr>floorNo = 1, slots = [\<lparr>slot_id = ''A'', slot_type = TwoWheeler, isFree = False\<rparr>]\<rparr>]"

definition wrap_floors :: "Floor list" where
  "wrap_floors =
     [\<lparr>floorNo = 1,
       slots = [\<lparr>slot_id = ''A'', slot_type = TwoWheeler, isFree = True\<rparr>,
                \<lparr>slot_id = ''B'', slot_type = TwoWheeler, isFree = True\<rparr>]\<rparr>]"

definition in_and_out :: "nat \<Rightarrow> call list" where
  "in_and_out k = [Enter ''E1'' bike 0, Exit (word_of_nat k) ''X1'' False 0 0]"

definition wrap_calls :: "call list" where
  "wrap_calls =
     Enter ''E1'' bike 0 # concat (map in_and_out [2 ..< 2 ^ 64 + 1]) @ [Enter ''E1'' bike 0]"

text \<open>
  The lot of that run when the counter stands at \<open>k\<close> and the ledger is \<open>svc\<close>: the first
  bike holds slot \<open>A\<close> with ticket 1, and slot \<open>B\<close> is free.
\<close>

definition wrap_state :: "nat \<Rightarrow> PaymentService \<Rightarrow> ParkingLot" where
  "wrap_state k svc =
     \<lparr>floors = set_isFree wrap_floors 0 0 False,
      active = [(1, \<lparr>tk_id = 1, tk_entryGateId = ''E1'', tk_inTime = 0, tk_slotId = ''A'',
                    tk_vtype = Bike, tk_stype = TwoWheeler, tk_vehicleReg = ''UP80 HM 8086''\<rparr>)],
      ticketSvc = \<lparr>nextId = word_of_nat k\<rparr>, paymentSvc = svc\<rparr>"

text \<open>
  Examples: a lot whose only floor has \<open>2^31\<close> free two-wheeler slots, and a lot of \<open>2^31\<close>
  floors with one free two-wheeler slot each.
\<close>

definition big_floor_lot :: ParkingLot where
  "big_floor_lot =
     configure ParkingLot_init
       [\<lparr>floorNo = 1,
         slots = replicate (2 ^ 31) \<lparr>slot_id = ''A'', slot_type = TwoWheeler, isFree = True\<rparr>\<rparr>]"

definition many_floors_lot :: ParkingLot where
  "many_floors_lot =
     configure ParkingLot_init
       (replicate (2 ^ 31)
          \<lparr>floorNo = 1,
           slots = [\<lparr>slot_id = ''A'', slot_type = TwoWheeler, isFree = True\<rparr>]\<rparr>)"

text \<open>
  Examples: the configuration document of the example layout, a document with no floor
  and a document whose only floor has no slot.
\<close>

definition example_json :: json where
  "example_json =
     JObject [(''floors'',
       JArray
         [JObject [(''floorNo'', JNumber 1),
                   (''slots'',
                    JArray [JObject [(''id'', JString ''F1-S1''), (''type'', JString ''TwoWheeler'')],
                            JObject [(''id'', JString ''F1-S2''), (''type'', JString ''FourWheeler'')]])],
          JObject [(''floorNo'', JNumber 2),
                   (''slots'',
                    JArray [JObject [(''id'', JString ''F2-S1''), (''type'', JString ''TwoWheeler'')]])]])]"

definition no_floors_json :: json where
  "no_floors_json = JObject [(''floors'', JArray [])]"

definition empty_floor_json :: json where
  "empty_floor_json =
     JObject [(''floors'', JArray [JObject [(''floorNo'', JNumber 1), (''slots'', JArray [])]])]"

text \<open>
  Any call of the lot's public operations, and the lot it leaves behind whether it
  returns or throws; the lots the public operations can produce are
  \<open>after_all ParkingLot_init ops\<close>. \<open>tickets_bound\<close>: every active ticket names a slot of the
  inventory.
\<close>

datatype operation =
  Configure "Floor list"
| TryEnter string Vehicle time_point
| TryExit TicketId string bool time_point time_point
| TryPay PaymentRequest time_point
| TryAdjust TicketId "64 word"

fun after :: "ParkingLot \<Rightarrow> operation \<Rightarrow> ParkingLot" where
  "after lot (Configure fs) = configure lot fs"
| "after lot (TryEnter gate v now) = snd (enterVehicle lot gate v now)"
| "after lot (TryExit tid gate lost now billNow) = snd (exitVehicle lot tid gate lost now billNow)"
| "after lot (TryPay req now) = snd (snd (payBill lot req now))"
| "after lot (TryAdjust tid minutesBack) = snd (adjustInTimeForTest lot tid minutesBack)"

fun after_all :: "ParkingLot \<Rightarrow> operation list \<Rightarrow> ParkingLot" where
  "after_all lot [] = lot"
| "after_all lot (c # cs) = after_all (after lot c) cs"

definition tickets_bound :: "ParkingLot \<Rightarrow> bool" where
  "tickets_bound lot \<longleftrightarrow>
     (\<forall>kv\<in>set (active lot). tk_slotId (snd kv) \<in> slot_id ` set (all_slots (floors lot)))"

section \<open>Properties\<close>

subsection \<open>Fee policy\<close>

lemma ceiling_div_60: "\<lceil>real n / 60\<rceil> = int ((n + 59) div 60)"
proof -
  have "\<lceil>real n / 60\<rceil> = \<lceil>of_int (int n) / of_int 60 :: real\<rceil>" by simp
  also have "\<dots> = - (- int n div 60)" by (rule ceiling_divide_eq_div)
  also have "\<dots> = int ((n + 59) div 60)" by (simp add: zdiv_int)
  finally show ?thesis .
qed

lemma unat_ceilHours:
  assumes "unat m \<le> 2 ^ 64 - 60"
  shows "unat (ceilHours m) = (unat m + 59) div 60"
proof (cases "m = 0")
  case True
  then show ?thesis by (simp add: ceilHours_def)
next
  case False
  have "unat (m + 59) = unat m + 59"
    using assms by (simp add: unat_word_ariths)
  then show ?thesis using False
    by (simp add: ceilHours_def unat_div)
qed

lemma unat_hours_times:
  assumes "unat m \<le> 2 ^ 64 - 60" and "unat (k :: 64 word) \<le> 50"
  shows "unat (ceilHours m * k) = unat (ceilHours m) * unat k"
proof -
  have "unat (ceilHours m) \<le> 307445734561825860"
    using assms(1) by (simp add: unat_ceilHours)
  then have "unat (ceilHours m) * unat k \<le> 307445734561825860 * 50"
    using assms(2) by (rule mult_le_mono)
  then have "unat (ceilHours m) * unat k < 2 ^ 64" by simp
  then show ?thesis
    by (simp add: unat_word_ariths)
qed

lemma compute_unfold:
  "compute s m =
     (if m \<le> 10 then \<lparr>fb_amount = 0, fb_billedHours = 0, fb_parkedMinutes = m\<rparr>
      else \<lparr>fb_amount = ceilHours m * (case s of TwoWheeler \<Rightarrow> 10 | FourWheeler \<Rightarrow> 20 | Heavy \<Rightarrow> 50),
            fb_billedHours = ceilHours m, fb_parkedMinutes = m\<rparr>)"
  by (cases s)
    (simp_all add: TwoWheelerFee_compute_def FourWheelerFee_compute_def HeavyFee_compute_def
      GRACE_MINUTES_def Let_def)

text \<open>
  C4 (as amended). For every slot category and every parked-minute count \<open>m\<close> up to
  \<open>2^64 - 60\<close>: within the grace period of 10 minutes the amount and the billed hours are
  0; otherwise the billed hours are the ceiling of \<open>m / 60\<close> and the amount is the billed
  hours times the category's rate (10, 20, 50). The bound is where \<open>minutes + 59\<close> still
  fits the 64-bit type.
\<close>

theorem fee_breakup_in_range:
  "unat m \<le> 2 ^ 64 - 60 \<Longrightarrow>
     fb_parkedMinutes (compute s m) = m \<and>
     (if unat m \<le> 10
      then fb_amount (compute s m) = 0 \<and> fb_billedHours (compute s m) = 0
      else int (unat (fb_billedHours (compute s m))) = \<lceil>real (unat m) / 60\<rceil> \<and>
           unat (fb_amount (compute s m)) = unat (fb_billedHours (compute s m)) * rate_per_hour s)"
proof -
  assume range: "unat m \<le> 2 ^ 64 - 60"
  have grace: "m \<le> 10 \<longleftrightarrow> unat m \<le> 10"
    by (simp add: word_le_nat_alt)
  have hours: "int (unat (ceilHours m)) = \<lceil>real (unat m) / 60\<rceil>"
    unfolding ceiling_div_60 using range by (simp only: unat_ceilHours)
  have amount: "unat (ceilHours m * k) = unat (ceilHours m) * unat k" if "unat k \<le> 50" for k
    using range that by (rule unat_hours_times)
  have rate: "unat (ceilHours m * (case s of TwoWheeler \<Rightarrow> 10 | FourWheeler \<Rightarrow> 20 | Heavy \<Rightarrow> 50))
      = unat (ceilHours m) * rate_per_hour s"
    by (cases s) (simp_all add: amount rate_per_hour_def)
  show ?thesis
    unfolding compute_unfold grace using hours rate by simp
qed

text \<open>A two-wheeler parked 95 minutes: 2 billed hours, amount 20.\<close>

theorem fee_breakup_in_range_witness:
  "unat (95 :: 64 word) \<le> 2 ^ 64 - 60 \<and>
   fb_billedHours (compute TwoWheeler 95) = 2 \<and> fb_amount (compute TwoWheeler 95) = 20 \<and>
   int (unat (fb_billedHours (compute TwoWheeler 95))) = \<lceil>real (unat (95 :: 64 word)) / 60\<rceil>"
  using fee_breakup_in_range [of 95 TwoWheeler]
  by (simp add: compute_unfold ceilHours_def)

text \<open>
  At the largest minute count, \<open>2^64 - 1\<close>, the sum \<open>minutes + 59\<close> wraps to 58: the billed
  hours and the amount are 0, while the ceiling of \<open>m / 60\<close> is 307445734561825861.
\<close>

theorem fee_breakup_wraps_counterexample:
  "fb_billedHours (compute TwoWheeler 18446744073709551615) = 0 \<and>
   fb_amount (compute TwoWheeler 18446744073709551615) = 0 \<and>
   \<lceil>real (unat (18446744073709551615 :: 64 word)) / 60\<rceil> = 307445734561825861"
proof -
  have "unat (18446744073709551615 :: 64 word) = 18446744073709551615" by simp
  then have "\<lceil>real (unat (18446744073709551615 :: 64 word)) / 60\<rceil> = 307445734561825861"
    by (simp only: ceiling_div_60)
  then show ?thesis
    by (simp add: compute_unfold ceilHours_def)
qed

text \<open>
  The same happens at each of the 59 largest minute counts: the sum wraps below 60, so
  the billed hours and the amount are 0 while the ceiling of \<open>m / 60\<close> is positive.
\<close>

lemma ceilHours_top:
  assumes "2 ^ 64 - 60 < unat m"
  shows "ceilHours m = 0"
proof -
  have lt: "unat m < 2 ^ 64" using unsigned_less [of m] by simp
  have "unat (m + 59) = (unat m + 59) mod 2 ^ 64" by (simp add: unat_word_ariths)
  also have "\<dots> = unat m + 59 - 2 ^ 64"
    using assms lt by (simp add: mod_if)
  finally have "unat (m + 59) < 60" using lt by simp
  then have "unat ((m + 59) div 60) = 0" by (simp add: unat_div)
  then have "(m + 59) div 60 = 0" by (simp add: unat_eq_0)
  then show ?thesis by (simp add: ceilHours_def)
qed

lemma fee_breakup_top_values:
  assumes "2 ^ 64 - 60 < unat m"
  shows "fb_billedHours (compute t m) = 0 \<and> fb_amount (compute t m) = 0 \<and>
    0 < \<lceil>real (unat m) / 60\<rceil>"
proof -
  from assms have "0 < unat m" by simp
  then have "0 < real (unat m)" by (simp only: of_nat_0_less_iff)
  then have "0 < real (unat m) / 60" by (rule divide_pos_pos) simp
  then have pos: "0 < \<lceil>real (unat m) / 60\<rceil>" by (simp only: zero_less_ceiling)
  from ceilHours_top [OF assms] have "ceilHours m = 0" .
  then have "fb_billedHours (compute t m) = 0 \<and> fb_amount (compute t m) = 0"
    by (cases t) (simp_all add: TwoWheelerFee_compute_def FourWheelerFee_compute_def
        HeavyFee_compute_def Let_def)
  with pos show ?thesis by simp
qed

subsection \<open>Payment processors\<close>

lemma string_find_from_None: "string_find_from s c i = None \<longleftrightarrow> c \<notin> set s"
  by (induction s arbitrary: i) auto

text \<open>
  C8. A Cash charge always succeeds. A Card charge succeeds exactly when the card number
  has at least 8 characters, and otherwise fails with the invalid-number reason. A UPI
  charge succeeds exactly when the address contains \<open>@\<close>, and otherwise fails with the
  invalid-address reason. A successful charge leaves the reason as it was.
\<close>

theorem processor_charge_rules:
  "charge Cash req r = (True, r) \<and>
   charge Card req r =
     (if 8 \<le> length (req_cardNumber req) then (True, r)
      else (False, ''Card declined (invalid number)'')) \<and>
   charge UPI req r =
     (if CHR ''@'' \<in> set (req_upiVPA req) then (True, r)
      else (False, ''UPI failed (invalid VPA)''))"
  by (simp add: CashProcessor_charge_def CardProcessor_charge_def UPIProcessor_charge_def
      string_find_def string_find_from_None)

theorem processor_charge_rules_witness:
  "charge Card \<lparr>req_bill = 1, req_amount = 20, req_method = Card,
                req_cardNumber = ''42424242'', req_upiVPA = []\<rparr> [] = (True, []) \<and>
   charge Card \<lparr>req_bill = 1, req_amount = 20, req_method = Card,
                req_cardNumber = ''4242'', req_upiVPA = []\<rparr> []
     = (False, ''Card declined (invalid number)'') \<and>
   charge UPI \<lparr>req_bill = 1, req_amount = 20, req_method = UPI,
               req_cardNumber = [], req_upiVPA = ''anil@upi''\<rparr> [] = (True, []) \<and>
   charge UPI \<lparr>req_bill = 1, req_amount = 20, req_method = UPI,
               req_cardNumber = [], req_upiVPA = ''anil''\<rparr> []
     = (False, ''UPI failed (invalid VPA)'')"
  using processor_charge_rules [of "\<lparr>req_bill = 1, req_amount = 20, req_method = Card,
                req_cardNumber = ''42424242'', req_upiVPA = []\<rparr>" "[]"]
    processor_charge_rules [of "\<lparr>req_bill = 1, req_amount = 20, req_method = Card,
                req_cardNumber = ''4242'', req_upiVPA = []\<rparr>" "[]"]
    processor_charge_rules [of "\<lparr>req_bill = 1, req_amount = 20, req_method = UPI,
               req_cardNumber = [], req_upiVPA = ''anil@upi''\<rparr>" "[]"]
    processor_charge_rules [of "\<lparr>req_bill = 1, req_amount = 20, req_method = UPI,
               req_cardNumber = [], req_upiVPA = ''anil''\<rparr>" "[]"]
  by simp

subsection \<open>Billing ledger\<close>

lemma um_find_modify:
  "um_find (um_modify k f m) k' = (if k' = k then map_option f (um_find m k') else um_find m k')"
  by (induction m) (auto simp: um_find_def um_modify_def)

lemma um_find_emplace_old:
  "um_find m k = Some v \<Longrightarrow> um_find (um_emplace k' v' m) k = Some v"
  by (simp add: um_find_def um_emplace_def map_add_Some_iff)

lemma pay_bills:
  "bills (snd (snd (pay svc req now))) =
     (case um_find (bills svc) (req_bill req) of
        None \<Rightarrow> bills svc
      | Some b \<Rightarrow>
          if b_status b = Pending
          then um_modify (req_bill req)
                 (\<lambda>x. x\<lparr>b_status := (if fst (charge (req_method req) req []) then Paid else Failed)\<rparr>)
                 (bills svc)
          else bills svc)"
  by (simp add: pay_def split: option.split prod.split)

lemma cancel_bills:
  "bills (snd (cancel svc cid)) =
     (case um_find (bills svc) cid of
        None \<Rightarrow> bills svc
      | Some b \<Rightarrow>
          if b_status b = Paid then bills svc
          else um_modify cid (\<lambda>x. x\<lparr>b_status := Cancelled\<rparr>) (bills svc))"
  by (simp add: cancel_def split: option.split)

lemma cancel_result:
  "um_find (bills svc) cid = Some b \<Longrightarrow>
     fst (cancel svc cid) = (if b_status b = Paid then Inl AlreadyPaid else Inr ())"
  by (simp add: cancel_def)

lemma pay_status_step:
  assumes "get svc bid = Some b"
  shows "\<exists>st. get (snd (snd (pay svc req now))) bid = Some (b\<lparr>b_status := st\<rparr>) \<and>
           (st = b_status b \<or>
            req_bill req = bid \<and> b_status b = Pending \<and> (st = Paid \<or> st = Failed))"
proof (cases "req_bill req = bid \<and> b_status b = Pending")
  case True
  let ?st = "if fst (charge (req_method req) req []) then Paid else Failed"
  have "get (snd (snd (pay svc req now))) bid = Some (b\<lparr>b_status := ?st\<rparr>)"
    using True assms by (simp add: get_def pay_bills um_find_modify)
  moreover have "?st = Paid \<or> ?st = Failed" by simp
  ultimately show ?thesis using True by blast
next
  case False
  then have "get (snd (snd (pay svc req now))) bid = Some (b\<lparr>b_status := b_status b\<rparr>)"
    using assms by (auto simp: get_def pay_bills um_find_modify split: option.split)
  then show ?thesis by blast
qed

lemma cancel_status_step:
  assumes "get svc bid = Some b"
  shows "\<exists>st. get (snd (cancel svc cid)) bid = Some (b\<lparr>b_status := st\<rparr>) \<and>
           (if cid = bid
            then (if b_status b = Paid
                  then fst (cancel svc cid) = Inl AlreadyPaid \<and> st = Paid
                  else fst (cancel svc cid) = Inr () \<and> st = Cancelled)
            else st = b_status b)"
proof (cases "cid = bid")
  case same: True
  show ?thesis
  proof (cases "b_status b = Paid")
    case True
    with same assms have "get (snd (cancel svc cid)) bid = Some (b\<lparr>b_status := Paid\<rparr>)"
      by (simp add: get_def cancel_bills)
    moreover from True same assms have "fst (cancel svc cid) = Inl AlreadyPaid"
      by (simp add: get_def cancel_result)
    ultimately show ?thesis using True same by auto
  next
    case False
    with same assms have "get (snd (cancel svc cid)) bid = Some (b\<lparr>b_status := Cancelled\<rparr>)"
      by (simp add: get_def cancel_bills um_find_modify)
    moreover from False same assms have "fst (cancel svc cid) = Inr ()"
      by (simp add: get_def cancel_result)
    ultimately show ?thesis using False same by auto
  qed
next
  case False
  then have "get (snd (cancel svc cid)) bid = Some (b\<lparr>b_status := b_status b\<rparr>)"
    using assms by (simp add: get_def cancel_bills um_find_modify split: option.split)
  with False show ?thesis by auto
qed

lemma createBill_keeps:
  "get svc bid = Some b \<Longrightarrow> get (snd (createBill svc tk gate fb now)) bid = Some b"
  by (simp add: get_def createBill_def Let_def um_find_emplace_old)

text \<open>
  C2 (as amended). For every bill \<open>b\<close> stored under \<open>bid\<close>: a \<open>pay\<close> call leaves the bill
  as it is except for the status, which changes only when the call names this bill and
  the bill is \<open>Pending\<close>, and then to \<open>Paid\<close> or \<open>Failed\<close>; a \<open>cancel\<close> call for another bill
  leaves it alone, a \<open>cancel\<close> of a \<open>Paid\<close> bill fails with \<open>AlreadyPaid\<close> and leaves it
  \<open>Paid\<close>, and a \<open>cancel\<close> of a bill in any other status (\<open>Pending\<close>, \<open>Failed\<close>,
  \<open>Cancelled\<close>) succeeds and leaves it \<open>Cancelled\<close>; \<open>createBill\<close> leaves it alone.
\<close>

theorem bill_status_transitions:
  "get svc bid = Some b \<Longrightarrow>
     (\<exists>st. get (snd (snd (pay svc req now))) bid = Some (b\<lparr>b_status := st\<rparr>) \<and>
           (st = b_status b \<or>
            req_bill req = bid \<and> b_status b = Pending \<and> (st = Paid \<or> st = Failed))) \<and>
     (\<exists>st. get (snd (cancel svc cid)) bid = Some (b\<lparr>b_status := st\<rparr>) \<and>
           (if cid = bid
            then (if b_status b = Paid
                  then fst (cancel svc cid) = Inl AlreadyPaid \<and> st = Paid
                  else fst (cancel svc cid) = Inr () \<and> st = Cancelled)
            else st = b_status b)) \<and>
     get (snd (createBill svc tk gate fb now2)) bid = Some b"
  by (intro conjI pay_status_step cancel_status_step createBill_keeps)

lemma example_service_created:
  "createBill \<lparr>bills = [], nextBill = 1\<rparr> example_ticket ''X1'' (compute TwoWheeler 95) 7
     = (example_bill, example_service Pending)"
  by (simp add: createBill_def example_ticket_def example_bill_def example_service_def
      TwoWheelerFee_compute_def GRACE_MINUTES_def ceilHours_def Let_def um_emplace_def)

lemma pay_bad_card:
  "pay (example_service Pending) (card_request ''4242'') now =
     (Inl (PaymentDeclined ''Card declined (invalid number)''), [Card], example_service Failed)"
  by (simp add: pay_def example_service_def example_bill_def card_request_def um_find_def
      um_modify_def CardProcessor_charge_def)

lemma pay_good_card:
  "pay (example_service Pending) (card_request ''42424242'') now =
     (Inr \<lparr>r_bill = 1, r_ticket = 1, r_amount = 20, r_method = ''Card'', r_paidAt = now\<rparr>,
      [Card], example_service Paid)"
  by (simp add: pay_def example_service_def example_bill_def card_request_def um_find_def
      um_modify_def CardProcessor_charge_def)

lemma req_bill_card_request: "req_bill (card_request number) = 1"
  by (simp add: card_request_def)

lemma get_example: "get (example_service st) 1 = Some (example_bill\<lparr>b_status := st\<rparr>)"
  by (simp add: get_def um_find_def example_service_def)

lemma cancel_example_failed:
  "cancel (example_service Failed) 1 = (Inr (), example_service Cancelled)"
  by (simp add: cancel_def example_service_def example_bill_def um_find_def um_modify_def)

text \<open>Cancelling the bill after a declined payment: the call succeeds.\<close>

theorem bill_status_transitions_witness:
  "get (example_service Failed) 1 = Some (example_bill\<lparr>b_status := Failed\<rparr>) \<and>
   (\<exists>st. get (snd (cancel (example_service Failed) 1)) 1
            = Some (example_bill\<lparr>b_status := Failed, b_status := st\<rparr>) \<and>
         fst (cancel (example_service Failed) 1) = Inr () \<and> st = Cancelled)"
proof -
  have h: "get (example_service Failed) 1 = Some (example_bill\<lparr>b_status := Failed\<rparr>)"
    by (rule get_example)
  from bill_status_transitions [OF h, of "card_request ''4242''" 9 1 example_ticket "''X2''"
      "compute TwoWheeler 95" 9]
  have "\<exists>st. get (snd (cancel (example_service Failed) 1)) 1
            = Some (example_bill\<lparr>b_status := Failed, b_status := st\<rparr>) \<and>
         fst (cancel (example_service Failed) 1) = Inr () \<and> st = Cancelled"
    by simp
  with h show ?thesis by (rule conjI)
qed

text \<open>
  A bill that a declined card payment left \<open>Failed\<close> is moved to \<open>Cancelled\<close> by a later
  \<open>cancel\<close>, which succeeds.
\<close>

theorem cancel_failed_bill_counterexample:
  "map_option b_status (get (snd (snd (pay (example_service Pending) (card_request ''4242'') 9))) 1)
     = Some Failed \<and>
   fst (cancel (snd (snd (pay (example_service Pending) (card_request ''4242'') 9))) 1) = Inr () \<and>
   map_option b_status
     (get (snd (cancel (snd (snd (pay (example_service Pending) (card_request ''4242'') 9))) 1)) 1)
     = Some Cancelled"
  by (simp add: pay_bad_card cancel_example_failed get_example)

lemma charge_ignores_amount:
  "charge m (req\<lparr>req_amount := a\<rparr>) r = charge m req r"
  by (cases m)
    (simp_all add: CashProcessor_charge_def CardProcessor_charge_def UPIProcessor_charge_def)

lemma pay_Paid:
  "get svc (req_bill req) = Some b \<Longrightarrow> b_status b = Paid \<Longrightarrow>
     pay svc req now =
       (Inr \<lparr>r_bill = b_id b, r_ticket = b_ticket b, r_amount = b_amount b,
             r_method = ''ALREADY_PAID'', r_paidAt = now\<rparr>, [], svc)"
  by (simp add: pay_def get_def)

lemma pay_Pending:
  "get svc (req_bill req) = Some b \<Longrightarrow> b_status b = Pending \<Longrightarrow>
     pay svc req now =
       (if fst (charge (req_method req) req [])
        then (Inr \<lparr>r_bill = b_id b, r_ticket = b_ticket b, r_amount = b_amount b,
                   r_method = processor_name (req_method req), r_paidAt = now\<rparr>,
              [req_method req],
              svc\<lparr>bills := um_modify (req_bill req) (\<lambda>x. x\<lparr>b_status := Paid\<rparr>) (bills svc)\<rparr>)
        else (Inl (PaymentDeclined (snd (charge (req_method req) req []))), [req_method req],
              svc\<lparr>bills := um_modify (req_bill req) (\<lambda>x. x\<lparr>b_status := Failed\<rparr>) (bills svc)\<rparr>))"
  by (simp add: pay_def get_def split: prod.split)

lemma pay_not_payable:
  "get svc (req_bill req) = Some b \<Longrightarrow> b_status b \<noteq> Paid \<Longrightarrow> b_status b \<noteq> Pending \<Longrightarrow>
     pay svc req now = (Inl NotPayable, [], svc)"
  by (simp add: pay_def get_def)

lemma pay_not_found:
  "get svc (req_bill req) = None \<Longrightarrow> pay svc req now = (Inl BillNotFound, [], svc)"
  by (simp add: pay_def get_def)

text \<open>
  C5. For a bill whose status is \<open>Paid\<close>, every further \<open>pay\<close> call naming it succeeds
  with no processor charged, the ledger unchanged and a receipt carrying the bill's
  amount. Two \<open>pay\<close> calls in a row on a \<open>Pending\<close> bill charge a processor at most once:
  the second call charges none, and replays the receipt when the first succeeded.
\<close>

theorem pay_replay_idempotent:
  "get svc (req_bill req) = Some b \<Longrightarrow>
     (b_status b = Paid \<longrightarrow>
        pay svc req now =
          (Inr \<lparr>r_bill = b_id b, r_ticket = b_ticket b, r_amount = b_amount b,
                r_method = ''ALREADY_PAID'', r_paidAt = now\<rparr>, [], svc)) \<and>
     (b_status b = Pending \<and> req_bill req2 = req_bill req \<longrightarrow>
        (case pay svc req now of
           (res1, charged1, svc1) \<Rightarrow>
             (case pay svc1 req2 now2 of
                (res2, charged2, svc2) \<Rightarrow>
                  length (charged1 @ charged2) \<le> 1 \<and> charged2 = [] \<and> svc2 = svc1 \<and>
                  (case res1 of
                     Inl e \<Rightarrow> res2 = Inl NotPayable
                   | Inr r \<Rightarrow>
                       res2 = Inr \<lparr>r_bill = b_id b, r_ticket = b_ticket b,
                                  r_amount = b_amount b, r_method = ''ALREADY_PAID'',
                                  r_paidAt = now2\<rparr>))))"
proof (intro conjI impI)
  assume "get svc (req_bill req) = Some b" and "b_status b = Paid"
  then show "pay svc req now =
          (Inr \<lparr>r_bill = b_id b, r_ticket = b_ticket b, r_amount = b_amount b,
                r_method = ''ALREADY_PAID'', r_paidAt = now\<rparr>, [], svc)"
    by (rule pay_Paid)
next
  assume found: "get svc (req_bill req) = Some b"
    and pending: "b_status b = Pending \<and> req_bill req2 = req_bill req"
  let ?ok = "fst (charge (req_method req) req [])"
  show "case pay svc req now of
           (res1, charged1, svc1) \<Rightarrow>
             (case pay svc1 req2 now2 of
                (res2, charged2, svc2) \<Rightarrow>
                  length (charged1 @ charged2) \<le> 1 \<and> charged2 = [] \<and> svc2 = svc1 \<and>
                  (case res1 of
                     Inl e \<Rightarrow> res2 = Inl NotPayable
                   | Inr r \<Rightarrow>
                       res2 = Inr \<lparr>r_bill = b_id b, r_ticket = b_ticket b,
                                  r_amount = b_amount b, r_method = ''ALREADY_PAID'',
                                  r_paidAt = now2\<rparr>))"
  proof (cases ?ok)
    case True
    let ?svc1 = "svc\<lparr>bills := um_modify (req_bill req) (\<lambda>x. x\<lparr>b_status := Paid\<rparr>) (bills svc)\<rparr>"
    have first: "pay svc req now =
        (Inr \<lparr>r_bill = b_id b, r_ticket = b_ticket b, r_amount = b_amount b,
              r_method = processor_name (req_method req), r_paidAt = now\<rparr>,
         [req_method req], ?svc1)"
      using found pending True by (simp add: pay_Pending)
    have "get ?svc1 (req_bill req2) = Some (b\<lparr>b_status := Paid\<rparr>)"
      using found pending by (simp add: get_def um_find_modify)
    then have "pay ?svc1 req2 now2 =
        (Inr \<lparr>r_bill = b_id b, r_ticket = b_ticket b, r_amount = b_amount b,
              r_method = ''ALREADY_PAID'', r_paidAt = now2\<rparr>, [], ?svc1)"
      using pay_Paid [of ?svc1 req2 "b\<lparr>b_status := Paid\<rparr>" now2] by simp
    with first show ?thesis by simp
  next
    case False
    let ?svc1 = "svc\<lparr>bills := um_modify (req_bill req) (\<lambda>x. x\<lparr>b_status := Failed\<rparr>) (bills svc)\<rparr>"
    have first: "pay svc req now =
        (Inl (PaymentDeclined (snd (charge (req_method req) req []))), [req_method req], ?svc1)"
      using found pending False by (simp add: pay_Pending)
    have "get ?svc1 (req_bill req2) = Some (b\<lparr>b_status := Failed\<rparr>)"
      using found pending by (simp add: get_def um_find_modify)
    then have "pay ?svc1 req2 now2 = (Inl NotPayable, [], ?svc1)"
      using pay_not_payable [of ?svc1 req2 "b\<lparr>b_status := Failed\<rparr>" now2] by simp
    with first show ?thesis by simp
  qed
qed

text \<open>A valid card payment, then a second payment with an invalid card number.\<close>

theorem pay_replay_idempotent_witness:
  "get (example_service Pending) (req_bill (card_request ''42424242'')) = Some example_bill \<and>
   pay (example_service Pending) (card_request ''42424242'') 9 =
     (Inr \<lparr>r_bill = 1, r_ticket = 1, r_amount = 20, r_method = ''Card'', r_paidAt = 9\<rparr>,
      [Card], example_service Paid) \<and>
   pay (example_service Paid) (card_request ''4242'') 11 =
     (Inr \<lparr>r_bill = 1, r_ticket = 1, r_amount = 20, r_method = ''ALREADY_PAID'', r_paidAt = 11\<rparr>,
      [], example_service Paid)"
proof -
  have h: "get (example_service Pending) (req_bill (card_request ''42424242'')) = Some example_bill"
    by (simp add: get_def um_find_def example_service_def card_request_def example_bill_def)
  have second: "pay (example_service Paid) (card_request ''4242'') 11 =
     (Inr \<lparr>r_bill = 1, r_ticket = 1, r_amount = 20, r_method = ''ALREADY_PAID'', r_paidAt = 11\<rparr>,
      [], example_service Paid)"
    using pay_replay_idempotent [OF h, where now = 9 and ?req2.0 = "card_request ''4242''" and ?now2.0 = 11]
    by (simp add: pay_good_card req_bill_card_request example_bill_def split: prod.splits)
  from h pay_good_card second show ?thesis by simp
qed

text \<open>
  C10. The amount of the request is never read: a request with any other amount gives
  the same result, the same charges and the same ledger. For a \<open>Pending\<close> bill a
  successful charge returns a receipt with the bill's stored amount and leaves the bill
  \<open>Paid\<close>; a declined one leaves it \<open>Failed\<close>.
\<close>

theorem pay_ignores_request_amount:
  "pay svc (req\<lparr>req_amount := a\<rparr>) now = pay svc req now \<and>
   (\<forall>b. get svc (req_bill req) = Some b \<and> b_status b = Pending \<longrightarrow>
      (if fst (charge (req_method req) req [])
       then fst (pay svc req now) =
              Inr \<lparr>r_bill = b_id b, r_ticket = b_ticket b, r_amount = b_amount b,
                    r_method = processor_name (req_method req), r_paidAt = now\<rparr> \<and>
            get (snd (snd (pay svc req now))) (req_bill req) = Some (b\<lparr>b_status := Paid\<rparr>)
       else fst (pay svc req now) = Inl (PaymentDeclined (snd (charge (req_method req) req []))) \<and>
            get (snd (snd (pay svc req now))) (req_bill req) = Some (b\<lparr>b_status := Failed\<rparr>)))"
proof (intro conjI allI impI)
  show "pay svc (req\<lparr>req_amount := a\<rparr>) now = pay svc req now"
    by (simp add: pay_def charge_ignores_amount split: option.split prod.split)
next
  fix b
  assume "get svc (req_bill req) = Some b \<and> b_status b = Pending"
  then show "if fst (charge (req_method req) req [])
       then fst (pay svc req now) =
              Inr \<lparr>r_bill = b_id b, r_ticket = b_ticket b, r_amount = b_amount b,
                    r_method = processor_name (req_method req), r_paidAt = now\<rparr> \<and>
            get (snd (snd (pay svc req now))) (req_bill req) = Some (b\<lparr>b_status := Paid\<rparr>)
       else fst (pay svc req now) = Inl (PaymentDeclined (snd (charge (req_method req) req []))) \<and>
            get (snd (snd (pay svc req now))) (req_bill req) = Some (b\<lparr>b_status := Failed\<rparr>)"
    by (simp add: pay_Pending) (simp add: get_def um_find_modify)
qed

text \<open>A request that states the amount 0 for a bill of 20.\<close>

theorem pay_ignores_request_amount_witness:
  "pay (example_service Pending) ((card_request ''42424242'')\<lparr>req_amount := 0\<rparr>) 9 =
     (Inr \<lparr>r_bill = 1, r_ticket = 1, r_amount = 20, r_method = ''Card'', r_paidAt = 9\<rparr>,
      [Card], example_service Paid)"
  using pay_ignores_request_amount
      [where svc = "example_service Pending" and req = "card_request ''42424242''" and a = 0 and now = 9]
  by (simp add: pay_good_card)

subsection \<open>Entry: first-fit slot search\<close>

lemma int_of_size_small: "n < 2 ^ 31 \<Longrightarrow> int_of_size n = int n"
  unfolding int_of_size_def
  by (simp add: signed_of_nat signed_take_bit_int_eq_self)

lemma seen_small: "length xs < 2 ^ 31 \<Longrightarrow> seen xs = xs"
  by (simp add: seen_def int_of_size_small)

lemma seen_subset: "set (seen xs) \<subseteq> set xs"
  by (simp add: seen_def set_take_subset)

lemma first_index_props:
  "\<exists>x\<in>set xs. Q x \<Longrightarrow>
     length (takeWhile (\<lambda>x. \<not> Q x) xs) < length xs \<and>
     Q (xs ! length (takeWhile (\<lambda>x. \<not> Q x) xs)) \<and>
     (\<forall>j < length (takeWhile (\<lambda>x. \<not> Q x) xs). \<not> Q (xs ! j))"
proof (induction xs)
  case Nil
  then show ?case by simp
next
  case (Cons x xs)
  show ?case
  proof (cases "Q x")
    case True
    then show ?thesis by simp
  next
    case False
    with Cons.prems have "\<exists>x\<in>set xs. Q x" by simp
    from Cons.IH [OF this] False show ?thesis
      by (auto simp: less_Suc_eq_0_disj)
  qed
qed

lemma take_bound_Cons:
  "(k :: int) < n \<Longrightarrow> take (nat (n - k)) (x # xs) = x # take (nat (n - (k + 1))) xs"
proof -
  assume "k < n"
  then have "nat (n - k) = Suc (nat (n - (k + 1)))" by simp
  then show ?thesis by simp
qed

lemma findFreeIndex_from_eq:
  "findFreeIndex_from ss t k n =
     (if \<exists>s\<in>set (take (nat (n - k)) ss). free_of t s
      then k + int (length (takeWhile (\<lambda>s. \<not> free_of t s) ss)) else - 1)"
proof (induction ss arbitrary: k)
  case Nil
  show ?case by simp
next
  case (Cons s rest)
  show ?case
  proof (cases "k < n")
    case True
    show ?thesis
      by (auto simp: True take_bound_Cons [OF True] Cons.IH free_of_def)
  next
    case False
    then show ?thesis by simp
  qed
qed

lemma findFreeIndex_eq:
  "findFreeIndex fl t =
     (if has_free t fl then int (length (takeWhile (\<lambda>s. \<not> free_of t s) (slots fl))) else - 1)"
  by (simp add: findFreeIndex_def findFreeIndex_from_eq has_free_def seen_def)

lemma enter_scan_eq:
  "enter_scan fs t f n =
     (if \<exists>fl\<in>set (take (nat (n - f)) fs). has_free t fl
      then (f + int (length (takeWhile (\<lambda>fl. \<not> has_free t fl) fs)),
            int (length (takeWhile (\<lambda>s. \<not> free_of t s)
                   (slots (fs ! length (takeWhile (\<lambda>fl. \<not> has_free t fl) fs))))))
      else (- 1, - 1))"
proof (induction fs arbitrary: f)
  case Nil
  show ?case by simp
next
  case (Cons fl rest)
  show ?case
  proof (cases "f < n")
    case True
    show ?thesis
      by (simp add: True take_bound_Cons [OF True] Cons.IH findFreeIndex_eq Let_def)
  next
    case False
    then show ?thesis by simp
  qed
qed

lemma set_isFree_length [simp]: "length (set_isFree fs f i v) = length fs"
  by (simp add: set_isFree_def)

lemma set_isFree_slots:
  "f' < length fs \<Longrightarrow>
     slots (set_isFree fs f i v ! f') =
       (if f' = f then (slots (fs ! f))[i := (slots (fs ! f) ! i)\<lparr>isFree := v\<rparr>]
        else slots (fs ! f'))"
  by (simp add: set_isFree_def nth_list_update)

lemma set_isFree_nth:
  "f' < length fs \<Longrightarrow> i' < length (slots (fs ! f')) \<Longrightarrow>
     slots (set_isFree fs f i v ! f') ! i' =
       (if f' = f \<and> i' = i then (slots (fs ! f) ! i)\<lparr>isFree := v\<rparr>
        else slots (fs ! f') ! i')"
  by (auto simp: set_isFree_slots nth_list_update)

lemma enterVehicle_none:
  assumes "\<not> (\<exists>fl\<in>set (seen (floors lot)). has_free (slotFor (v_type v)) fl)"
  shows "enterVehicle lot gate v now = (Inl NoCapacity, lot)"
  using assms by (simp add: enterVehicle_def enter_scan_eq seen_def)

lemma enterVehicle_some:
  assumes "\<exists>fl\<in>set (seen (floors lot)). has_free (slotFor (v_type v)) fl"
  defines "f \<equiv> length (takeWhile (\<lambda>fl. \<not> has_free (slotFor (v_type v)) fl) (floors lot))"
  defines "i \<equiv> length (takeWhile (\<lambda>s. \<not> free_of (slotFor (v_type v)) s) (slots (floors lot ! f)))"
  shows "f < length (floors lot)" and "i < length (slots (floors lot ! f))"
    and "free_of (slotFor (v_type v)) (slots (floors lot ! f) ! i)"
    and "\<forall>f'<f. \<not> has_free (slotFor (v_type v)) (floors lot ! f')"
    and "\<forall>i'<i. \<not> free_of (slotFor (v_type v)) (slots (floors lot ! f) ! i')"
    and "enterVehicle lot gate v now =
           (Inr (nextId (ticketSvc lot)),
            lot\<lparr>floors := set_isFree (floors lot) f i False,
                active :=
                  um_emplace (nextId (ticketSvc lot))
                    \<lparr>tk_id = nextId (ticketSvc lot), tk_entryGateId = gate, tk_inTime = now,
                     tk_slotId = slot_id (slots (floors lot ! f) ! i), tk_vtype = v_type v,
                     tk_stype = slotFor (v_type v), tk_vehicleReg = regNo v\<rparr>
                    (active lot),
                ticketSvc := (ticketSvc lot)\<lparr>nextId := nextId (ticketSvc lot) + 1\<rparr>\<rparr>)"
proof -
  from assms(1) seen_subset [of "floors lot"]
  have ex: "\<exists>fl\<in>set (floors lot). has_free (slotFor (v_type v)) fl" by blast
  from first_index_props [of "floors lot" "has_free (slotFor (v_type v))", OF ex]
  have F: "f < length (floors lot)" "has_free (slotFor (v_type v)) (floors lot ! f)"
    "\<forall>f'<f. \<not> has_free (slotFor (v_type v)) (floors lot ! f')"
    by (simp_all add: f_def)
  from F(2) seen_subset [of "slots (floors lot ! f)"]
  have "\<exists>s\<in>set (slots (floors lot ! f)). free_of (slotFor (v_type v)) s"
    unfolding has_free_def by blast
  from first_index_props [of "slots (floors lot ! f)" "free_of (slotFor (v_type v))", OF this]
  have I: "i < length (slots (floors lot ! f))"
    "free_of (slotFor (v_type v)) (slots (floors lot ! f) ! i)"
    "\<forall>i'<i. \<not> free_of (slotFor (v_type v)) (slots (floors lot ! f) ! i')"
    by (simp_all add: i_def)
  show "f < length (floors lot)" by (rule F(1))
  show "i < length (slots (floors lot ! f))" by (rule I(1))
  show "free_of (slotFor (v_type v)) (slots (floors lot ! f) ! i)" by (rule I(2))
  show "\<forall>f'<f. \<not> has_free (slotFor (v_type v)) (floors lot ! f')" by (rule F(3))
  show "\<forall>i'<i. \<not> free_of (slotFor (v_type v)) (slots (floors lot ! f) ! i')" by (rule I(3))
  have scan: "enter_scan (floors lot) (slotFor (v_type v)) 0 (int_of_size (length (floors lot)))
      = (int f, int i)"
    using assms(1) by (simp add: enter_scan_eq f_def i_def seen_def)
  have slot: "slots (set_isFree (floors lot) f i False ! f) ! i
      = (slots (floors lot ! f) ! i)\<lparr>isFree := False\<rparr>"
    using F(1) I(1) by (simp add: set_isFree_nth)
  have ty: "slot_type (slots (floors lot ! f) ! i) = slotFor (v_type v)"
    using I(2) by (simp add: free_of_def)
  show "enterVehicle lot gate v now =
           (Inr (nextId (ticketSvc lot)),
            lot\<lparr>floors := set_isFree (floors lot) f i False,
                active :=
                  um_emplace (nextId (ticketSvc lot))
                    \<lparr>tk_id = nextId (ticketSvc lot), tk_entryGateId = gate, tk_inTime = now,
                     tk_slotId = slot_id (slots (floors lot ! f) ! i), tk_vtype = v_type v,
                     tk_stype = slotFor (v_type v), tk_vehicleReg = regNo v\<rparr>
                    (active lot),
                ticketSvc := (ticketSvc lot)\<lparr>nextId := nextId (ticketSvc lot) + 1\<rparr>\<rparr>)"
    by (simp add: enterVehicle_def scan slot ty openTicket_def Let_def)
qed

lemma int_of_size_pow31: "int_of_size 2147483648 = - 2147483648"
  by (simp add: int_of_size_def)

lemma big_floor_lot_full:
  "enterVehicle big_floor_lot gate bike now = (Inl NoCapacity, big_floor_lot)"
proof (rule enterVehicle_none)
  have "seen (slots \<lparr>floorNo = 1,
      slots = replicate (2 ^ 31) \<lparr>slot_id = ''A'', slot_type = TwoWheeler, isFree = True\<rparr>\<rparr>) = []"
    by (simp add: seen_def int_of_size_pow31)
  then show "\<not> (\<exists>fl\<in>set (seen (floors big_floor_lot)). has_free (slotFor (v_type bike)) fl)"
    using seen_subset [of "floors big_floor_lot"]
    by (auto simp: big_floor_lot_def configure_def has_free_def)
qed

lemma many_floors_lot_full:
  "enterVehicle many_floors_lot gate bike now = (Inl NoCapacity, many_floors_lot)"
proof (rule enterVehicle_none)
  have "seen (floors many_floors_lot) = []"
    by (simp add: seen_def many_floors_lot_def configure_def int_of_size_pow31)
  then show "\<not> (\<exists>fl\<in>set (seen (floors many_floors_lot)). has_free (slotFor (v_type bike)) fl)"
    by simp
qed


text \<open>
  C7 (as amended). For every lot with fewer than \<open>2^31\<close> floors, each of fewer than \<open>2^31\<close> slots, and every
  vehicle, with \<open>need\<close> the slot type of the vehicle: when some slot of type \<open>need\<close> is
  free, \<open>enterVehicle\<close> succeeds and marks occupied exactly the slot at position \<open>(f, i)\<close>,
  where \<open>f\<close> is the lowest floor index holding such a slot and \<open>i\<close> the lowest index of such
  a slot on that floor (\<open>set_isFree\<close> writes that one flag, see \<open>set_isFree_nth\<close>); it
  returns the counter's value as ticket id and records the ticket bound to that slot's
  id. When no slot of type \<open>need\<close> is free on any floor it fails with \<open>NoCapacity\<close> and the
  lot, its ticket table and counter included, is unchanged.
\<close>

theorem enterVehicle_first_fit:
  assumes "length (floors lot) < 2 ^ 31"
    and "\<forall>fl\<in>set (floors lot). length (slots fl) < 2 ^ 31"
  shows
  "(if \<exists>fl\<in>set (floors lot). \<exists>s\<in>set (slots fl). free_of (slotFor (v_type v)) s
    then \<exists>f i. f < length (floors lot) \<and> i < length (slots (floors lot ! f)) \<and>
           free_of (slotFor (v_type v)) (slots (floors lot ! f) ! i) \<and>
           (\<forall>f'<f. \<forall>s\<in>set (slots (floors lot ! f')). \<not> free_of (slotFor (v_type v)) s) \<and>
           (\<forall>i'<i. \<not> free_of (slotFor (v_type v)) (slots (floors lot ! f) ! i')) \<and>
           enterVehicle lot gate v now =
             (Inr (nextId (ticketSvc lot)),
              lot\<lparr>floors := set_isFree (floors lot) f i False,
                  active :=
                    um_emplace (nextId (ticketSvc lot))
                      \<lparr>tk_id = nextId (ticketSvc lot), tk_entryGateId = gate, tk_inTime = now,
                       tk_slotId = slot_id (slots (floors lot ! f) ! i), tk_vtype = v_type v,
                       tk_stype = slotFor (v_type v), tk_vehicleReg = regNo v\<rparr>
                      (active lot),
                  ticketSvc := (ticketSvc lot)\<lparr>nextId := nextId (ticketSvc lot) + 1\<rparr>\<rparr>)
    else enterVehicle lot gate v now = (Inl NoCapacity, lot))"
proof -
  have all: "seen (floors lot) = floors lot"
    using assms(1) by (rule seen_small)
  have hf: "has_free (slotFor (v_type v)) fl
      \<longleftrightarrow> (\<exists>s\<in>set (slots fl). free_of (slotFor (v_type v)) s)"
    if "fl \<in> set (floors lot)" for fl
    using assms(2) that by (simp add: has_free_def seen_small)
  show ?thesis
  proof (cases "\<exists>fl\<in>set (seen (floors lot)). has_free (slotFor (v_type v)) fl")
    case True
    note some = enterVehicle_some [OF True]
    from True have ex: "\<exists>fl\<in>set (floors lot). \<exists>s\<in>set (slots fl). free_of (slotFor (v_type v)) s"
      unfolding all using hf by blast
    have "\<forall>f'<length (takeWhile (\<lambda>fl. \<not> has_free (slotFor (v_type v)) fl) (floors lot)).
            \<forall>s\<in>set (slots (floors lot ! f')). \<not> free_of (slotFor (v_type v)) s"
    proof (intro allI impI)
      fix f'
      assume lt: "f' < length (takeWhile (\<lambda>fl. \<not> has_free (slotFor (v_type v)) fl) (floors lot))"
      with some(1) have "floors lot ! f' \<in> set (floors lot)" by simp
      from hf [OF this] some(4) lt
      show "\<forall>s\<in>set (slots (floors lot ! f')). \<not> free_of (slotFor (v_type v)) s" by blast
    qed
    with some(1,2,3,5,6) ex show ?thesis
      by (simp only: if_True) blast
  next
    case False
    then have "\<not> (\<exists>fl\<in>set (floors lot). \<exists>s\<in>set (slots fl). free_of (slotFor (v_type v)) s)"
      unfolding all using hf by blast
    with enterVehicle_none [OF False] show ?thesis
      by (simp only: if_False)
  qed
qed

lemma example_lot_eq:
  "example_lot =
     \<lparr>floors = example_floors, active = [], ticketSvc = \<lparr>nextId = 1\<rparr>,
      paymentSvc = \<lparr>bills = [], nextBill = 1\<rparr>\<rparr>"
  by (simp add: example_lot_def configure_def ParkingLot_init_def reset_def)

lemma example_enter_1:
  "enterVehicle example_lot ''E1'' bike 0 =
     (Inr 1,
      \<lparr>floors = set_isFree example_floors 0 0 False,
       active = [(1, \<lparr>tk_id = 1, tk_entryGateId = ''E1'', tk_inTime = 0, tk_slotId = ''F1-S1'',
                     tk_vtype = Bike, tk_stype = TwoWheeler, tk_vehicleReg = ''UP80 HM 8086''\<rparr>)],
       ticketSvc = \<lparr>nextId = 2\<rparr>, paymentSvc = \<lparr>bills = [], nextBill = 1\<rparr>\<rparr>)"
  by (simp add: example_lot_eq enterVehicle_def example_floors_def bike_def findFreeIndex_def
      int_of_size_def set_isFree_def openTicket_def um_emplace_def Let_def)

text \<open>
  Two bikes take \<open>F1-S1\<close> and then \<open>F2-S1\<close>; a third finds no two-wheeler slot.
\<close>

theorem enterVehicle_first_fit_witness:
  "fst (enterVehicle example_lot ''E1'' bike 0) = Inr 1 \<and>
   floors (snd (enterVehicle example_lot ''E1'' bike 0)) = set_isFree example_floors 0 0 False \<and>
   fst (enterVehicle (snd (enterVehicle example_lot ''E1'' bike 0)) ''E2'' bike 5) = Inr 2 \<and>
   floors (snd (enterVehicle (snd (enterVehicle example_lot ''E1'' bike 0)) ''E2'' bike 5))
     = set_isFree (set_isFree example_floors 0 0 False) 1 0 False \<and>
   enterVehicle
     (snd (enterVehicle (snd (enterVehicle example_lot ''E1'' bike 0)) ''E2'' bike 5)) ''E1'' bike 9
     = (Inl NoCapacity,
        snd (enterVehicle (snd (enterVehicle example_lot ''E1'' bike 0)) ''E2'' bike 5))"
proof -
  let ?lot3 = "snd (enterVehicle (snd (enterVehicle example_lot ''E1'' bike 0)) ''E2'' bike 5)"
  have enter2: "enterVehicle (snd (enterVehicle example_lot ''E1'' bike 0)) ''E2'' bike 5 =
    (Inr 2,
     \<lparr>floors = set_isFree (set_isFree example_floors 0 0 False) 1 0 False,
      active = [(1, \<lparr>tk_id = 1, tk_entryGateId = ''E1'', tk_inTime = 0, tk_slotId = ''F1-S1'',
                    tk_vtype = Bike, tk_stype = TwoWheeler, tk_vehicleReg = ''UP80 HM 8086''\<rparr>),
                (2, \<lparr>tk_id = 2, tk_entryGateId = ''E2'', tk_inTime = 5, tk_slotId = ''F2-S1'',
                    tk_vtype = Bike, tk_stype = TwoWheeler, tk_vehicleReg = ''UP80 HM 8086''\<rparr>)],
      ticketSvc = \<lparr>nextId = 3\<rparr>, paymentSvc = \<lparr>bills = [], nextBill = 1\<rparr>\<rparr>)"
    by (simp add: example_enter_1)
      (simp add: enterVehicle_def example_floors_def bike_def findFreeIndex_def int_of_size_def
        set_isFree_def openTicket_def um_emplace_def Let_def)
  have lot3: "?lot3 =
     \<lparr>floors = set_isFree (set_isFree example_floors 0 0 False) 1 0 False,
      active = [(1, \<lparr>tk_id = 1, tk_entryGateId = ''E1'', tk_inTime = 0, tk_slotId = ''F1-S1'',
                    tk_vtype = Bike, tk_stype = TwoWheeler, tk_vehicleReg = ''UP80 HM 8086''\<rparr>),
                (2, \<lparr>tk_id = 2, tk_entryGateId = ''E2'', tk_inTime = 5, tk_slotId = ''F2-S1'',
                    tk_vtype = Bike, tk_stype = TwoWheeler, tk_vehicleReg = ''UP80 HM 8086''\<rparr>)],
      ticketSvc = \<lparr>nextId = 3\<rparr>, paymentSvc = \<lparr>bills = [], nextBill = 1\<rparr>\<rparr>"
    by (simp only: enter2 snd_conv)
  have a1: "length (floors example_lot) < 2 ^ 31"
    by (simp add: example_lot_eq example_floors_def)
  have b1: "\<forall>fl\<in>set (floors example_lot). length (slots fl) < 2 ^ 31"
    by (simp add: example_lot_eq example_floors_def)
  have a3: "length (floors ?lot3) < 2 ^ 31"
    unfolding lot3 by (simp add: example_floors_def)
  have b3: "\<forall>fl\<in>set (floors ?lot3). length (slots fl) < 2 ^ 31"
    unfolding lot3 by (simp add: example_floors_def set_isFree_def)
  have full: "\<not> (\<exists>fl\<in>set (floors ?lot3). \<exists>s\<in>set (slots fl). free_of (slotFor (v_type bike)) s)"
    unfolding lot3 by (simp add: example_floors_def set_isFree_def free_of_def bike_def)
  from enterVehicle_first_fit [OF a3 b3, of bike "''E1''" 9] full
  have third: "enterVehicle ?lot3 ''E1'' bike 9 = (Inl NoCapacity, ?lot3)"
    by (simp only: if_False)
  have some: "\<exists>fl\<in>set (floors example_lot). \<exists>s\<in>set (slots fl). free_of (slotFor (v_type bike)) s"
    by (simp add: example_lot_eq example_floors_def free_of_def bike_def)
  from enterVehicle_first_fit [OF a1 b1, of bike "''E1''" 0] some
  have "\<exists>f i. enterVehicle example_lot ''E1'' bike 0 =
      (Inr (nextId (ticketSvc example_lot)),
       example_lot\<lparr>floors := set_isFree (floors example_lot) f i False,
           active :=
             um_emplace (nextId (ticketSvc example_lot))
               \<lparr>tk_id = nextId (ticketSvc example_lot), tk_entryGateId = ''E1'', tk_inTime = 0,
                tk_slotId = slot_id (slots (floors example_lot ! f) ! i),
                tk_vtype = v_type bike,
                tk_stype = slotFor (v_type bike), tk_vehicleReg = regNo bike\<rparr>
               (active example_lot),
           ticketSvc := (ticketSvc example_lot)\<lparr>nextId := nextId (ticketSvc example_lot) + 1\<rparr>\<rparr>)"
    by (simp only: if_True) blast
  then have first: "fst (enterVehicle example_lot ''E1'' bike 0) = Inr 1"
    by (auto simp: example_lot_eq)
  from first third show ?thesis
    by (simp only: enter2 snd_conv fst_conv) (simp add: example_enter_1)
qed

text \<open>
  The indices are \<open>int\<close>s and the loops are bounded by the sizes cast to \<open>int\<close>. On a floor
  of \<open>2^31\<close> slots the cast is negative and \<open>findFreeIndex\<close> visits no slot: the lot whose
  only floor has \<open>2^31\<close> free two-wheeler slots turns a bike away. So does the lot of
  \<open>2^31\<close> floors, whose floor loop visits no floor.
\<close>

theorem enterVehicle_int_index_counterexample:
  "length (floors big_floor_lot) = 1 \<and>
   length (slots (floors big_floor_lot ! 0)) = 2 ^ 31 \<and>
   slotFor (v_type bike) = TwoWheeler \<and>
   free_of TwoWheeler (slots (floors big_floor_lot ! 0) ! 0) \<and>
   enterVehicle big_floor_lot ''E1'' bike 0 = (Inl NoCapacity, big_floor_lot) \<and>
   length (floors many_floors_lot) = 2 ^ 31 \<and>
   length (slots (floors many_floors_lot ! 0)) = 1 \<and>
   free_of TwoWheeler (slots (floors many_floors_lot ! 0) ! 0) \<and>
   enterVehicle many_floors_lot ''E1'' bike 0 = (Inl NoCapacity, many_floors_lot)"
  by (simp add: big_floor_lot_full many_floors_lot_full)
    (simp add: big_floor_lot_def many_floors_lot_def configure_def free_of_def bike_def)

subsection \<open>Exit: fee, penalty and bill\<close>

lemma exitVehicle_unknown:
  "um_find (active lot) tid = None \<Longrightarrow>
     exitVehicle lot tid gate lost now billNow = (Inl InvalidTicket, lot)"
  by (simp add: exitVehicle_def)

lemma exitVehicle_missing_slot:
  "um_find (active lot) tid = Some tk \<Longrightarrow>
   findSlotById_from (floors lot) (tk_slotId tk) 0 = None \<Longrightarrow>
     exitVehicle lot tid gate lost now billNow =
       (Inl (SlotInconsistency (tk_slotId tk)), lot\<lparr>active := um_erase tid (active lot)\<rparr>)"
  by (simp add: exitVehicle_def findSlotById_nolock_def Let_def)

lemma exitVehicle_found:
  "um_find (active lot) tid = Some tk \<Longrightarrow>
   findSlotById_from (floors lot) (tk_slotId tk) 0 = Some (f, i) \<Longrightarrow>
     exitVehicle lot tid gate lost now billNow =
       (Inr (fst (createBill (paymentSvc lot) tk gate
                   (if lost
                    then (compute (tk_stype tk) (elapsed_minutes (tk_inTime tk) now))
                           \<lparr>fb_amount :=
                              fb_amount (compute (tk_stype tk) (elapsed_minutes (tk_inTime tk) now))
                                + LOST_TICKET_PENALTY\<rparr>
                    else compute (tk_stype tk) (elapsed_minutes (tk_inTime tk) now))
                   billNow)),
        lot\<lparr>active := um_erase tid (active lot),
            floors := set_isFree (floors lot) f i True,
            paymentSvc :=
              snd (createBill (paymentSvc lot) tk gate
                    (if lost
                     then (compute (tk_stype tk) (elapsed_minutes (tk_inTime tk) now))
                            \<lparr>fb_amount :=
                               fb_amount (compute (tk_stype tk) (elapsed_minutes (tk_inTime tk) now))
                                 + LOST_TICKET_PENALTY\<rparr>
                     else compute (tk_stype tk) (elapsed_minutes (tk_inTime tk) now))
                    billNow)\<rparr>)"
  by (simp add: exitVehicle_def findSlotById_nolock_def Let_def split: prod.split)

lemma createBill_fields:
  "b_amount (fst (createBill svc tk gate fb now)) = fb_amount fb"
  "b_billedHours (fst (createBill svc tk gate fb now)) = fb_billedHours fb"
  "b_parkedMinutes (fst (createBill svc tk gate fb now)) = fb_parkedMinutes fb"
  "b_status (fst (createBill svc tk gate fb now)) = Pending"
  "b_ticket (fst (createBill svc tk gate fb now)) = tk_id tk"
  by (simp_all add: createBill_def Let_def)

lemma createBill_amount_only:
  "fst (createBill svc tk gate (fb\<lparr>fb_amount := a\<rparr>) now)
     = (fst (createBill svc tk gate fb now))\<lparr>b_amount := a\<rparr>"
  by (simp add: createBill_def Let_def)

lemma elapsed_minutes_bound: "unat (elapsed_minutes inTime now) \<le> 153722867"
proof -
  define d where "d = sint (now - inTime)"
  define m where "m = d sdiv ticks_per_minute"
  have "d < 2 ^ 63" unfolding d_def using sint_lt [of "now - inTime"] by simp
  moreover have "- (2 ^ 63) \<le> d" unfolding d_def using sint_ge [of "now - inTime"] by simp
  ultimately have "\<bar>d\<bar> \<le> 2 ^ 63" by simp
  then have "\<bar>d\<bar> div 60000000000 \<le> 2 ^ 63 div 60000000000" by (rule zdiv_mono1) simp
  then have abs_m: "\<bar>m\<bar> \<le> 153722867"
    unfolding m_def ticks_per_minute_def signed_divide_int_def
    by (simp add: abs_mult abs_sgn_eq split: if_splits)
  let ?c = "if m < 0 then 0 else m"
  have c: "0 \<le> ?c" "?c \<le> 153722867" using abs_m by auto
  then have "unat (word_of_int ?c :: 64 word) = nat ?c"
    by (simp add: unat_eq_nat_uint uint_word_of_int)
  with c have "unat (word_of_int ?c :: 64 word) \<le> 153722867" by simp
  then show ?thesis
    unfolding elapsed_minutes_def Let_def m_def d_def .
qed

lemma fee_amount_bound:
  assumes "unat m \<le> 153722867"
  shows "unat (fb_amount (compute s m)) \<le> 128102400"
proof (cases "m \<le> 10")
  case True
  then show ?thesis by (simp add: compute_unfold)
next
  case False
  have range: "unat m \<le> 2 ^ 64 - 60" using assms by simp
  have hours: "unat (ceilHours m) \<le> 2562048"
    using assms by (simp add: unat_ceilHours [OF range])
  have "unat (ceilHours m * k) \<le> 2562048 * 50" if "unat k \<le> 50" for k
  proof -
    have "unat (ceilHours m * k) = unat (ceilHours m) * unat k"
      using range that by (rule unat_hours_times)
    also have "\<dots> \<le> 2562048 * 50" using hours that by (rule mult_le_mono)
    finally show ?thesis .
  qed
  then show ?thesis using False
    by (cases s) (simp_all add: compute_unfold)
qed

lemma unat_add_penalty:
  "unat (fb_amount (compute s (elapsed_minutes inTime now)) + LOST_TICKET_PENALTY)
     = unat (fb_amount (compute s (elapsed_minutes inTime now))) + 200"
proof -
  have "unat (fb_amount (compute s (elapsed_minutes inTime now))) \<le> 128102400"
    using elapsed_minutes_bound by (rule fee_amount_bound)
  then show ?thesis
    by (simp add: LOST_TICKET_PENALTY_def unat_word_ariths)
qed

lemma exitVehicle_ok_found:
  assumes "um_find (active lot) tid = Some tk"
    and "fst (exitVehicle lot tid gate lost now billNow) = Inr bill"
  shows "\<exists>f i. findSlotById_from (floors lot) (tk_slotId tk) 0 = Some (f, i)"
proof (cases "findSlotById_from (floors lot) (tk_slotId tk) 0")
  case None
  with assms show ?thesis by (simp add: exitVehicle_missing_slot)
next
  case (Some p)
  then show ?thesis by (cases p) simp
qed

text \<open>
  C6. When \<open>exitVehicle\<close> succeeds with the lost-ticket flag set, its bill is the bill of
  the same exit without the flag except for the amount, which is the fee computed by the
  grace-period and hour-rounding rules plus exactly 200, with no wrap-around; billed
  hours and parked minutes are those of the computed fee. A four-wheeler ticket with 30
  elapsed minutes gives the amount 220.
\<close>

theorem lost_ticket_penalty:
  "um_find (active lot) tid = Some tk \<Longrightarrow>
   fst (exitVehicle lot tid gate True now billNow) = Inr bill \<Longrightarrow>
     fst (exitVehicle lot tid gate False now billNow) =
       Inr (bill\<lparr>b_amount := fb_amount (compute (tk_stype tk) (elapsed_minutes (tk_inTime tk) now))\<rparr>) \<and>
     unat (b_amount bill) =
       unat (fb_amount (compute (tk_stype tk) (elapsed_minutes (tk_inTime tk) now))) + 200 \<and>
     b_billedHours bill = fb_billedHours (compute (tk_stype tk) (elapsed_minutes (tk_inTime tk) now)) \<and>
     b_parkedMinutes bill = elapsed_minutes (tk_inTime tk) now \<and>
     b_status bill = Pending \<and>
     (tk_stype tk = FourWheeler \<and> elapsed_minutes (tk_inTime tk) now = 30 \<longrightarrow> b_amount bill = 220)"
proof -
  assume tk: "um_find (active lot) tid = Some tk"
    and ok: "fst (exitVehicle lot tid gate True now billNow) = Inr bill"
  let ?fb = "compute (tk_stype tk) (elapsed_minutes (tk_inTime tk) now)"
  from exitVehicle_ok_found [OF tk ok] obtain f i
    where pos: "findSlotById_from (floors lot) (tk_slotId tk) 0 = Some (f, i)" by blast
  have bill: "bill = fst (createBill (paymentSvc lot) tk gate
                        (?fb\<lparr>fb_amount := fb_amount ?fb + LOST_TICKET_PENALTY\<rparr>) billNow)"
    using ok by (simp add: exitVehicle_found [OF tk pos])
  have plain: "fst (exitVehicle lot tid gate False now billNow)
      = Inr (fst (createBill (paymentSvc lot) tk gate ?fb billNow))"
    by (simp add: exitVehicle_found [OF tk pos])
  have 1: "fst (exitVehicle lot tid gate False now billNow) = Inr (bill\<lparr>b_amount := fb_amount ?fb\<rparr>)"
    unfolding plain bill by (simp add: createBill_def Let_def)
  have amount: "b_amount bill = fb_amount ?fb + LOST_TICKET_PENALTY"
    unfolding bill by (simp add: createBill_fields)
  have 2: "unat (b_amount bill) = unat (fb_amount ?fb) + 200"
    unfolding amount by (rule unat_add_penalty)
  have 3: "b_billedHours bill = fb_billedHours ?fb"
    unfolding bill by (simp add: createBill_fields)
  have 4: "b_parkedMinutes bill = elapsed_minutes (tk_inTime tk) now"
    unfolding bill by (simp add: createBill_fields compute_unfold)
  have 5: "b_status bill = Pending"
    unfolding bill by (simp add: createBill_fields)
  have 6: "tk_stype tk = FourWheeler \<and> elapsed_minutes (tk_inTime tk) now = 30 \<longrightarrow> b_amount bill = 220"
    unfolding amount by (simp add: compute_unfold ceilHours_def LOST_TICKET_PENALTY_def)
  from 1 2 3 4 5 6 show ?thesis by blast
qed

lemma car_lot_eq:
  "car_lot =
     \<lparr>floors = set_isFree example_floors 0 1 False,
      active = [(1, \<lparr>tk_id = 1, tk_entryGateId = ''E2'', tk_inTime = 0, tk_slotId = ''F1-S2'',
                    tk_vtype = Car, tk_stype = FourWheeler, tk_vehicleReg = ''DL8CAF1234''\<rparr>)],
      ticketSvc = \<lparr>nextId = 2\<rparr>, paymentSvc = \<lparr>bills = [], nextBill = 1\<rparr>\<rparr>"
  by (simp add: car_lot_def example_lot_eq enterVehicle_def example_floors_def car_def
      findFreeIndex_def int_of_size_def set_isFree_def openTicket_def um_emplace_def Let_def)

lemma elapsed_30: "elapsed_minutes 0 1800000000000 = 30"
  by (simp add: elapsed_minutes_def ticks_per_minute_def signed_divide_int_def Let_def)

lemma car_lot_exit_lost:
  "exitVehicle car_lot 1 ''X3'' True 1800000000000 1800000000001 =
     (Inr \<lparr>b_id = 1, b_ticket = 1, b_vehicleReg = ''DL8CAF1234'', b_slotId = ''F1-S2'',
           b_entryGateId = ''E2'', b_exitGateId = ''X3'', b_inTime = 0,
           b_outTime = 1800000000001, b_parkedMinutes = 30, b_billedHours = 1,
           b_amount = 220, b_status = Pending\<rparr>,
      \<lparr>floors = example_floors, active = [], ticketSvc = \<lparr>nextId = 2\<rparr>,
       paymentSvc =
         \<lparr>bills =
            [(1, \<lparr>b_id = 1, b_ticket = 1, b_vehicleReg = ''DL8CAF1234'', b_slotId = ''F1-S2'',
                  b_entryGateId = ''E2'', b_exitGateId = ''X3'', b_inTime = 0,
                  b_outTime = 1800000000001, b_parkedMinutes = 30, b_billedHours = 1,
                  b_amount = 220, b_status = Pending\<rparr>)],
          nextBill = 2\<rparr>\<rparr>)"
  by (simp add: car_lot_eq exitVehicle_def um_find_def um_erase_def findSlotById_nolock_def
      example_floors_def set_isFree_def elapsed_30 compute_unfold ceilHours_def
      LOST_TICKET_PENALTY_def createBill_def um_emplace_def Let_def)

text \<open>
  A car enters at tick 0 and leaves 30 minutes later with the flag set: amount 220;
  without the flag: 20.
\<close>

theorem lost_ticket_penalty_witness:
  "um_find (active car_lot) 1 =
     Some \<lparr>tk_id = 1, tk_entryGateId = ''E2'', tk_inTime = 0, tk_slotId = ''F1-S2'',
           tk_vtype = Car, tk_stype = FourWheeler, tk_vehicleReg = ''DL8CAF1234''\<rparr> \<and>
   elapsed_minutes 0 1800000000000 = 30 \<and>
   map_sum id b_amount (fst (exitVehicle car_lot 1 ''X3'' True 1800000000000 1800000000001))
     = Inr 220 \<and>
   map_sum id b_amount (fst (exitVehicle car_lot 1 ''X3'' False 1800000000000 1800000000001))
     = Inr 20"
proof -
  have tk: "um_find (active car_lot) 1 =
     Some \<lparr>tk_id = 1, tk_entryGateId = ''E2'', tk_inTime = 0, tk_slotId = ''F1-S2'',
           tk_vtype = Car, tk_stype = FourWheeler, tk_vehicleReg = ''DL8CAF1234''\<rparr>"
    by (simp add: car_lot_eq um_find_def)
  have ok: "fst (exitVehicle car_lot 1 ''X3'' True 1800000000000 1800000000001) =
     Inr \<lparr>b_id = 1, b_ticket = 1, b_vehicleReg = ''DL8CAF1234'', b_slotId = ''F1-S2'',
           b_entryGateId = ''E2'', b_exitGateId = ''X3'', b_inTime = 0,
           b_outTime = 1800000000001, b_parkedMinutes = 30, b_billedHours = 1,
           b_amount = 220, b_status = Pending\<rparr>"
    by (simp add: car_lot_exit_lost)
  from lost_ticket_penalty [OF tk ok]
  have "map_sum id b_amount (fst (exitVehicle car_lot 1 ''X3'' False 1800000000000 1800000000001))
     = Inr 20"
    by (simp add: elapsed_30 compute_unfold ceilHours_def)
  with tk ok elapsed_30 show ?thesis by simp
qed

subsection \<open>Positions of slots\<close>

lemma all_slots_set_isFree:
  "f < length fs \<Longrightarrow> i < length (slots (fs ! f)) \<Longrightarrow>
     \<exists>p < length (all_slots fs).
        all_slots fs ! p = slots (fs ! f) ! i \<and>
        all_slots (set_isFree fs f i v) = (all_slots fs)[p := (all_slots fs ! p)\<lparr>isFree := v\<rparr>]"
proof (induction fs arbitrary: f)
  case Nil
  then show ?case by simp
next
  case (Cons fl fs)
  show ?case
  proof (cases f)
    case 0
    with Cons.prems have "i < length (all_slots (fl # fs))"
      and "all_slots (fl # fs) ! i = slots ((fl # fs) ! f) ! i"
      and "all_slots (set_isFree (fl # fs) f i v)
            = (all_slots (fl # fs))[i := (all_slots (fl # fs) ! i)\<lparr>isFree := v\<rparr>]"
      by (simp_all add: all_slots_def set_isFree_def nth_append list_update_append)
    then show ?thesis by blast
  next
    case (Suc f')
    with Cons.prems have "f' < length fs" "i < length (slots (fs ! f'))" by simp_all
    from Cons.IH [OF this] obtain p where p: "p < length (all_slots fs)"
      "all_slots fs ! p = slots (fs ! f') ! i"
      "all_slots (set_isFree fs f' i v) = (all_slots fs)[p := (all_slots fs ! p)\<lparr>isFree := v\<rparr>]"
      by blast
    have step: "set_isFree (fl # fs) (Suc f') i v = fl # set_isFree fs f' i v"
      by (simp add: set_isFree_def)
    let ?q = "length (slots fl) + p"
    have "?q < length (all_slots (fl # fs))" using p(1) by (simp add: all_slots_def)
    moreover have "all_slots (fl # fs) ! ?q = slots ((fl # fs) ! f) ! i"
      using p(2) Suc by (simp add: all_slots_def nth_append)
    moreover have "all_slots (set_isFree (fl # fs) f i v)
        = (all_slots (fl # fs))[?q := (all_slots (fl # fs) ! ?q)\<lparr>isFree := v\<rparr>]"
      using p(3) Suc
      by (simp add: step all_slots_def list_update_append nth_append)
    ultimately show ?thesis by blast
  qed
qed

lemma slot_ids_update:
  "map slot_id (xs[p := (xs ! p)\<lparr>isFree := v\<rparr>]) = map slot_id xs"
  by (cases "p < length xs") (simp_all add: map_update list_update_same_conv list_update_beyond)

lemma set_isFree_slot_ids:
  assumes "f < length fs" and "i < length (slots (fs ! f))"
  shows "map slot_id (all_slots (set_isFree fs f i v)) = map slot_id (all_slots fs)"
proof -
  from all_slots_set_isFree [OF assms, of v] obtain p where
    "all_slots (set_isFree fs f i v) = (all_slots fs)[p := (all_slots fs ! p)\<lparr>isFree := v\<rparr>]"
    by blast
  then show ?thesis by (simp only: slot_ids_update)
qed

lemma find_in_slots_Some:
  "find_in_slots ss sid k = Some r \<Longrightarrow>
     k \<le> r \<and> r - k < length ss \<and> slot_id (ss ! (r - k)) = sid"
proof (induction ss arbitrary: k)
  case Nil
  then show ?case by simp
next
  case (Cons s ss)
  show ?case
  proof (cases "slot_id s = sid")
    case True
    with Cons.prems show ?thesis by simp
  next
    case False
    with Cons.prems have "find_in_slots ss sid (Suc k) = Some r" by simp
    from Cons.IH [OF this] show ?thesis
      by (auto simp: Suc_diff_le)
  qed
qed

lemma findSlotById_from_Some:
  "findSlotById_from fs sid k = Some (f, i) \<Longrightarrow>
     k \<le> f \<and> f - k < length fs \<and> i < length (slots (fs ! (f - k))) \<and>
     slot_id (slots (fs ! (f - k)) ! i) = sid"
proof (induction fs arbitrary: k)
  case Nil
  then show ?case by simp
next
  case (Cons fl fs)
  show ?case
  proof (cases "find_in_slots (slots fl) sid 0")
    case None
    with Cons.prems have "findSlotById_from fs sid (Suc k) = Some (f, i)" by simp
    from Cons.IH [OF this] show ?thesis
      by (auto simp: Suc_diff_le)
  next
    case (Some r)
    with Cons.prems have "f = k" "i = r" by simp_all
    with find_in_slots_Some [OF Some] show ?thesis by simp
  qed
qed

lemma find_in_slots_None:
  "find_in_slots ss sid k = None \<longleftrightarrow> sid \<notin> slot_id ` set ss"
  by (induction ss arbitrary: k) auto

lemma findSlotById_from_None:
  "findSlotById_from fs sid k = None \<longleftrightarrow> sid \<notin> slot_id ` set (all_slots fs)"
proof (induction fs arbitrary: k)
  case Nil
  then show ?case by (simp add: all_slots_def)
next
  case (Cons fl fs)
  show ?case
  proof (cases "find_in_slots (slots fl) sid 0")
    case None
    then have "sid \<notin> slot_id ` set (slots fl)" by (simp add: find_in_slots_None)
    with None Cons.IH [of "Suc k"] show ?thesis
      by (auto simp: all_slots_def)
  next
    case (Some i)
    then have "sid \<in> slot_id ` set (slots fl)"
      using find_in_slots_None [of "slots fl" sid 0] by auto
    with Some show ?thesis by (auto simp: all_slots_def)
  qed
qed

lemma set_isFree_id_set:
  assumes "f < length fs" and "i < length (slots (fs ! f))"
  shows "slot_id ` set (all_slots (set_isFree fs f i v)) = slot_id ` set (all_slots fs)"
proof -
  have "set (map slot_id (all_slots (set_isFree fs f i v))) = set (map slot_id (all_slots fs))"
    using assms by (simp only: set_isFree_slot_ids)
  then show ?thesis by simp
qed

lemma slot_in_inventory:
  assumes "f < length fs" and "i < length (slots (fs ! f))"
  shows "slot_id (slots (fs ! f) ! i) \<in> slot_id ` set (all_slots fs)"
proof -
  from all_slots_set_isFree [OF assms, of True] obtain p
    where "p < length (all_slots fs)" "all_slots fs ! p = slots (fs ! f) ! i" by blast
  then have "slots (fs ! f) ! i \<in> set (all_slots fs)" by (metis nth_mem)
  then show ?thesis by (rule imageI)
qed

lemma enter_success_shape:
  assumes "enterVehicle lot gate v now = (Inr t, lot')"
  shows "\<exists>f i tk. f < length (floors lot) \<and> i < length (slots (floors lot ! f)) \<and>
           isFree (slots (floors lot ! f) ! i) \<and>
           tk_slotId tk = slot_id (slots (floors lot ! f) ! i) \<and>
           lot' = lot\<lparr>floors := set_isFree (floors lot) f i False,
                      active := um_emplace (nextId (ticketSvc lot)) tk (active lot),
                      ticketSvc := (ticketSvc lot)\<lparr>nextId := nextId (ticketSvc lot) + 1\<rparr>\<rparr>"
proof -
  let ?need = "slotFor (v_type v)"
  have some: "\<exists>fl\<in>set (seen (floors lot)). has_free ?need fl"
  proof (rule ccontr)
    assume "\<not> ?thesis"
    from enterVehicle_none [OF this] assms show False by simp
  qed
  define f where "f = length (takeWhile (\<lambda>fl. \<not> has_free ?need fl) (floors lot))"
  define i where "i = length (takeWhile (\<lambda>s. \<not> free_of ?need s) (slots (floors lot ! f)))"
  note facts = enterVehicle_some [OF some, folded f_def, folded i_def]
  define tk where "tk = \<lparr>tk_id = nextId (ticketSvc lot), tk_entryGateId = gate, tk_inTime = now,
                     tk_slotId = slot_id (slots (floors lot ! f) ! i), tk_vtype = v_type v,
                     tk_stype = ?need, tk_vehicleReg = regNo v\<rparr>"
  have "lot' = snd (enterVehicle lot gate v now)" using assms by simp
  then have "lot' = lot\<lparr>floors := set_isFree (floors lot) f i False,
                active := um_emplace (nextId (ticketSvc lot)) tk (active lot),
                ticketSvc := (ticketSvc lot)\<lparr>nextId := nextId (ticketSvc lot) + 1\<rparr>\<rparr>"
    by (simp only: facts(6) tk_def snd_conv)
  moreover have "isFree (slots (floors lot ! f) ! i)" using facts(3) by (simp add: free_of_def)
  moreover have "tk_slotId tk = slot_id (slots (floors lot ! f) ! i)" by (simp add: tk_def)
  ultimately show ?thesis using facts(1,2) by blast
qed

lemma exit_success_shape:
  assumes "exitVehicle lot tid gate lost now billNow = (Inr bill, lot')"
  shows "\<exists>tk f i psvc. um_find (active lot) tid = Some tk \<and>
           f < length (floors lot) \<and> i < length (slots (floors lot ! f)) \<and>
           slot_id (slots (floors lot ! f) ! i) = tk_slotId tk \<and>
           lot' = lot\<lparr>active := um_erase tid (active lot),
                      floors := set_isFree (floors lot) f i True, paymentSvc := psvc\<rparr>"
proof -
  from assms obtain tk where tk: "um_find (active lot) tid = Some tk"
    by (cases "um_find (active lot) tid") (simp_all add: exitVehicle_unknown)
  from assms have "fst (exitVehicle lot tid gate lost now billNow) = Inr bill" by simp
  from exitVehicle_ok_found [OF tk this] obtain f i
    where pos: "findSlotById_from (floors lot) (tk_slotId tk) 0 = Some (f, i)" by blast
  have "lot' = snd (exitVehicle lot tid gate lost now billNow)" using assms by simp
  then obtain psvc where "lot' = lot\<lparr>active := um_erase tid (active lot),
      floors := set_isFree (floors lot) f i True, paymentSvc := psvc\<rparr>"
    by (simp only: exitVehicle_found [OF tk pos] snd_conv)
  moreover from findSlotById_from_Some [OF pos]
  have "f < length (floors lot)" "i < length (slots (floors lot ! f))"
    "slot_id (slots (floors lot ! f) ! i) = tk_slotId tk" by simp_all
  ultimately show ?thesis using tk by blast
qed

subsection \<open>Failing operations\<close>

lemma exitVehicle_failure:
  assumes "fst (exitVehicle lot tid gate lost now billNow) = Inl e"
  shows "case um_find (active lot) tid of
           None \<Rightarrow> e = InvalidTicket \<and> snd (exitVehicle lot tid gate lost now billNow) = lot
         | Some tk \<Rightarrow>
             e = SlotInconsistency (tk_slotId tk) \<and>
             findSlotById_nolock lot (tk_slotId tk) = None \<and>
             snd (exitVehicle lot tid gate lost now billNow)
               = lot\<lparr>active := um_erase tid (active lot)\<rparr>"
proof (cases "um_find (active lot) tid")
  case None
  with assms show ?thesis by (simp add: exitVehicle_unknown)
next
  case (Some tk)
  show ?thesis
  proof (cases "findSlotById_from (floors lot) (tk_slotId tk) 0")
    case None
    with Some assms show ?thesis
      by (simp add: exitVehicle_missing_slot findSlotById_nolock_def)
  next
    case (Some p)
    obtain f i where "p = (f, i)" by (cases p)
    with Some \<open>um_find (active lot) tid = Some tk\<close> assms show ?thesis
      by (simp add: exitVehicle_found)
  qed
qed

lemma enterVehicle_failure:
  "fst (enterVehicle lot gate v now) = Inl e \<Longrightarrow>
     e = NoCapacity \<and> snd (enterVehicle lot gate v now) = lot"
  by (simp add: enterVehicle_def Let_def openTicket_def split: prod.splits if_splits)

lemma pay_failure:
  assumes "fst (pay svc req now) = Inl e"
  shows "case get svc (req_bill req) of
           None \<Rightarrow> e = BillNotFound \<and> snd (snd (pay svc req now)) = svc
         | Some b \<Rightarrow>
             if b_status b = Pending
             then e = PaymentDeclined (snd (charge (req_method req) req [])) \<and>
                  snd (snd (pay svc req now))
                    = svc\<lparr>bills := um_modify (req_bill req) (\<lambda>x. x\<lparr>b_status := Failed\<rparr>) (bills svc)\<rparr>
             else e = NotPayable \<and> snd (snd (pay svc req now)) = svc"
proof (cases "get svc (req_bill req)")
  case None
  with assms show ?thesis by (simp add: pay_not_found)
next
  case (Some b)
  consider "b_status b = Paid" | "b_status b = Pending" | "b_status b \<noteq> Paid" "b_status b \<noteq> Pending"
    by blast
  then show ?thesis
  proof cases
    case 1
    with Some assms show ?thesis by (simp add: pay_Paid)
  next
    case 2
    with Some assms show ?thesis by (simp add: pay_Pending split: if_splits)
  next
    case 3
    with Some assms show ?thesis by (simp add: pay_not_payable)
  qed
qed

lemma cancel_failure:
  "fst (cancel svc bid) = Inl e \<Longrightarrow> snd (cancel svc bid) = svc"
  by (simp add: cancel_def split: option.splits if_splits)

lemma adjustInTimeForTest_failure:
  "fst (adjustInTimeForTest lot tid minutesBack) = Inl e \<Longrightarrow>
     e = TicketNotFound \<and> snd (adjustInTimeForTest lot tid minutesBack) = lot"
  by (simp add: adjustInTimeForTest_def split: option.splits)

lemma payBill_eq:
  "payBill lot req now =
     (fst (pay (paymentSvc lot) req now), fst (snd (pay (paymentSvc lot) req now)),
      lot\<lparr>paymentSvc := snd (snd (pay (paymentSvc lot) req now))\<rparr>)"
  by (simp add: payBill_def split: prod.split)

lemma enter_bound:
  assumes "tickets_bound lot"
  shows "tickets_bound (snd (enterVehicle lot gate v now))"
proof (cases "fst (enterVehicle lot gate v now)")
  case (Inl e)
  with enterVehicle_failure [of lot gate v now e] assms show ?thesis by simp
next
  case (Inr t)
  then have "enterVehicle lot gate v now = (Inr t, snd (enterVehicle lot gate v now))"
    by (simp add: prod_eq_iff)
  from enter_success_shape [OF this] obtain f i tk
    where fi: "f < length (floors lot)" "i < length (slots (floors lot ! f))"
      and sid: "tk_slotId tk = slot_id (slots (floors lot ! f) ! i)"
      and lot': "snd (enterVehicle lot gate v now) =
           lot\<lparr>floors := set_isFree (floors lot) f i False,
               active := um_emplace (nextId (ticketSvc lot)) tk (active lot),
               ticketSvc := (ticketSvc lot)\<lparr>nextId := nextId (ticketSvc lot) + 1\<rparr>\<rparr>"
    by blast
  have new: "tk_slotId tk \<in> slot_id ` set (all_slots (floors lot))"
    unfolding sid using fi by (rule slot_in_inventory)
  have "set (um_emplace (nextId (ticketSvc lot)) tk (active lot))
      \<subseteq> insert (nextId (ticketSvc lot), tk) (set (active lot))"
    by (auto simp: um_emplace_def)
  with assms new show ?thesis
    unfolding lot' tickets_bound_def by (auto simp: set_isFree_id_set [OF fi])
qed

lemma exit_bound:
  assumes "tickets_bound lot"
  shows "tickets_bound (snd (exitVehicle lot tid gate lost now billNow))"
proof (cases "fst (exitVehicle lot tid gate lost now billNow)")
  case (Inl e)
  from exitVehicle_failure [OF this] assms show ?thesis
    by (auto simp: tickets_bound_def um_erase_def split: option.splits)
next
  case (Inr bill)
  then have "exitVehicle lot tid gate lost now billNow
      = (Inr bill, snd (exitVehicle lot tid gate lost now billNow))"
    by (simp add: prod_eq_iff)
  from exit_success_shape [OF this] obtain tk f i psvc
    where fi: "f < length (floors lot)" "i < length (slots (floors lot ! f))"
      and lot': "snd (exitVehicle lot tid gate lost now billNow) =
           lot\<lparr>active := um_erase tid (active lot),
               floors := set_isFree (floors lot) f i True, paymentSvc := psvc\<rparr>"
    by blast
  from assms show ?thesis
    unfolding lot' tickets_bound_def by (auto simp: set_isFree_id_set [OF fi] um_erase_def)
qed

lemma adjust_bound:
  assumes "tickets_bound lot"
  shows "tickets_bound (snd (adjustInTimeForTest lot tid minutesBack))"
  using assms
  by (auto simp: adjustInTimeForTest_def tickets_bound_def um_modify_def split: option.splits)

lemma pay_bound:
  "tickets_bound lot \<Longrightarrow> tickets_bound (snd (snd (payBill lot req now)))"
  by (simp add: payBill_eq tickets_bound_def)

lemma configure_bound: "tickets_bound (configure lot fs)"
  by (simp add: tickets_bound_def configure_def)

lemma after_bound: "tickets_bound lot \<Longrightarrow> tickets_bound (after lot c)"
  by (cases c) (simp_all add: configure_bound enter_bound exit_bound pay_bound adjust_bound)

lemma after_all_bound: "tickets_bound lot \<Longrightarrow> tickets_bound (after_all lot cs)"
  by (induction cs arbitrary: lot) (simp_all add: after_bound)

lemma reachable_bound: "tickets_bound (after_all ParkingLot_init ops)"
proof (rule after_all_bound)
  show "tickets_bound ParkingLot_init"
    by (simp add: tickets_bound_def ParkingLot_init_def)
qed

lemma bound_exit_failure:
  assumes "tickets_bound lot"
    and failed: "fst (exitVehicle lot tid gate lost now billNow) = Inl e"
  shows "e = InvalidTicket \<and> um_find (active lot) tid = None \<and>
         snd (exitVehicle lot tid gate lost now billNow) = lot"
proof (cases "um_find (active lot) tid")
  case None
  with exitVehicle_failure [OF failed] show ?thesis by simp
next
  case (Some tk)
  with exitVehicle_failure [OF failed]
  have "findSlotById_from (floors lot) (tk_slotId tk) 0 = None"
    by (simp add: findSlotById_nolock_def)
  then have "tk_slotId tk \<notin> slot_id ` set (all_slots (floors lot))"
    by (simp add: findSlotById_from_None)
  moreover from Some have "(tid, tk) \<in> set (active lot)"
    by (simp add: um_find_def map_of_SomeD)
  ultimately have False using assms(1) by (auto simp: tickets_bound_def)
  then show ?thesis ..
qed

text \<open>
  C3. The public operations of the lot are \<open>configure\<close>, \<open>enterVehicle\<close>, \<open>exitVehicle\<close>,
  \<open>payBill\<close> and \<open>adjustInTimeForTest\<close>; let \<open>lot\<close> be the default-constructed lot after any
  sequence of calls of them, failed ones included. On \<open>lot\<close>, a failing \<open>enterVehicle\<close>
  fails with \<open>NoCapacity\<close> and a failing \<open>adjustInTimeForTest\<close> with \<open>TicketNotFound\<close>, and
  both leave the whole state unchanged. A failing \<open>exitVehicle\<close> fails with
  \<open>InvalidTicket\<close>, the ticket being unknown, and leaves the whole state unchanged: the
  active-ticket table, every slot, the counter and the ledger; it never fails with
  \<open>SlotInconsistency\<close>, because every active ticket names a slot of the inventory. On any
  ledger, a failing \<open>pay\<close> leaves the ledger unchanged unless the bill was \<open>Pending\<close>; then
  the failure is the processor's decline and only that bill's status has changed, to
  \<open>Failed\<close>. \<open>payBill\<close> changes nothing but the ledger, and a failing \<open>cancel\<close> leaves the
  ledger unchanged.
\<close>

theorem failing_operations_state:
  assumes "lot = after_all ParkingLot_init ops"
  shows
  "(fst (enterVehicle lot gate v now) = Inl e1 \<longrightarrow>
      e1 = NoCapacity \<and> snd (enterVehicle lot gate v now) = lot) \<and>
   (fst (exitVehicle lot tid xgate lost now billNow) = Inl e2 \<longrightarrow>
      e2 = InvalidTicket \<and> um_find (active lot) tid = None \<and>
      snd (exitVehicle lot tid xgate lost now billNow) = lot) \<and>
   (fst (pay svc req now) = Inl e3 \<longrightarrow>
      (case get svc (req_bill req) of
         None \<Rightarrow> e3 = BillNotFound \<and> snd (snd (pay svc req now)) = svc
       | Some b \<Rightarrow>
           if b_status b = Pending
           then e3 = PaymentDeclined (snd (charge (req_method req) req [])) \<and>
                snd (snd (pay svc req now))
                  = svc\<lparr>bills := um_modify (req_bill req) (\<lambda>x. x\<lparr>b_status := Failed\<rparr>) (bills svc)\<rparr>
           else e3 = NotPayable \<and> snd (snd (pay svc req now)) = svc)) \<and>
   snd (snd (payBill lot req now)) = lot\<lparr>paymentSvc := snd (snd (pay (paymentSvc lot) req now))\<rparr> \<and>
   (fst (cancel svc bid) = Inl e4 \<longrightarrow> snd (cancel svc bid) = svc) \<and>
   (fst (adjustInTimeForTest lot tid minutesBack) = Inl e5 \<longrightarrow>
      e5 = TicketNotFound \<and> snd (adjustInTimeForTest lot tid minutesBack) = lot)"
proof (intro conjI impI)
  assume "fst (enterVehicle lot gate v now) = Inl e1"
  from enterVehicle_failure [OF this]
  show "e1 = NoCapacity" and "snd (enterVehicle lot gate v now) = lot" by simp_all
next
  have bound: "tickets_bound lot" unfolding assms by (rule reachable_bound)
  assume "fst (exitVehicle lot tid xgate lost now billNow) = Inl e2"
  from bound_exit_failure [OF bound this]
  show "e2 = InvalidTicket" and "um_find (active lot) tid = None"
    and "snd (exitVehicle lot tid xgate lost now billNow) = lot" by simp_all
next
  assume "fst (pay svc req now) = Inl e3"
  then show "case get svc (req_bill req) of
         None \<Rightarrow> e3 = BillNotFound \<and> snd (snd (pay svc req now)) = svc
       | Some b \<Rightarrow>
           if b_status b = Pending
           then e3 = PaymentDeclined (snd (charge (req_method req) req [])) \<and>
                snd (snd (pay svc req now))
                  = svc\<lparr>bills := um_modify (req_bill req) (\<lambda>x. x\<lparr>b_status := Failed\<rparr>) (bills svc)\<rparr>
           else e3 = NotPayable \<and> snd (snd (pay svc req now)) = svc"
    by (rule pay_failure)
next
  show "snd (snd (payBill lot req now)) = lot\<lparr>paymentSvc := snd (snd (pay (paymentSvc lot) req now))\<rparr>"
    by (simp add: payBill_eq)
next
  assume "fst (cancel svc bid) = Inl e4"
  then show "snd (cancel svc bid) = svc" by (rule cancel_failure)
next
  assume "fst (adjustInTimeForTest lot tid minutesBack) = Inl e5"
  from adjustInTimeForTest_failure [OF this]
  show "e5 = TicketNotFound" and "snd (adjustInTimeForTest lot tid minutesBack) = lot"
    by simp_all
qed

lemma car_lot_exit_unknown: "exitVehicle car_lot 7 ''X1'' False 5 5 = (Inl InvalidTicket, car_lot)"
  by (simp add: car_lot_eq exitVehicle_def um_find_def)

lemma car_lot_full: "fst (enterVehicle car_lot ''E1'' car 5) = Inl NoCapacity"
  by (simp add: car_lot_eq enterVehicle_def example_floors_def car_def findFreeIndex_def
      int_of_size_def set_isFree_def Let_def)

lemma car_lot_reached:
  "car_lot = after_all ParkingLot_init [Configure example_floors, TryEnter ''E2'' car 0]"
  by (simp add: car_lot_def example_lot_def)

text \<open>
  After \<open>configure\<close> and the entry of a car: a second car finds no four-wheeler slot,
  ticket 7 is unknown to \<open>exitVehicle\<close> and to \<open>adjustInTimeForTest\<close>, and a card number of
  four digits is declined.
\<close>

theorem failing_operations_state_witness:
  "fst (enterVehicle car_lot ''E1'' car 5) = Inl NoCapacity \<and>
   snd (enterVehicle car_lot ''E1'' car 5) = car_lot \<and>
   fst (exitVehicle car_lot 7 ''X1'' False 5 5) = Inl InvalidTicket \<and>
   snd (exitVehicle car_lot 7 ''X1'' False 5 5) = car_lot \<and>
   fst (pay (example_service Pending) (card_request ''4242'') 5)
     = Inl (PaymentDeclined ''Card declined (invalid number)'') \<and>
   snd (snd (pay (example_service Pending) (card_request ''4242'') 5)) = example_service Failed \<and>
   fst (adjustInTimeForTest car_lot 7 30) = Inl TicketNotFound \<and>
   snd (adjustInTimeForTest car_lot 7 30) = car_lot"
proof -
  have h1: "fst (enterVehicle car_lot ''E1'' car 5) = Inl NoCapacity" by (rule car_lot_full)
  have h2: "fst (exitVehicle car_lot 7 ''X1'' False 5 5) = Inl InvalidTicket"
    by (simp add: car_lot_exit_unknown)
  have h3: "fst (pay (example_service Pending) (card_request ''4242'') 5)
     = Inl (PaymentDeclined ''Card declined (invalid number)'')"
    by (simp add: pay_bad_card)
  have h5: "fst (adjustInTimeForTest car_lot 7 30) = Inl TicketNotFound"
    by (simp add: car_lot_eq adjustInTimeForTest_def um_find_def)
  have declined: "(example_service Pending)\<lparr>bills := um_modify 1
         (\<lambda>x. x\<lparr>b_status := Failed\<rparr>) (bills (example_service Pending))\<rparr>
      = example_service Failed"
    by (simp add: example_service_def um_modify_def)
  from failing_operations_state
    [OF car_lot_reached,
      where gate = "''E1''" and v = car and now = 5 and ?e1.0 = NoCapacity
      and tid = 7 and xgate = "''X1''" and lost = False and billNow = 5 and ?e2.0 = InvalidTicket
      and svc = "example_service Pending" and req = "card_request ''4242''"
      and ?e3.0 = "PaymentDeclined ''Card declined (invalid number)''"
      and minutesBack = 30 and ?e5.0 = TicketNotFound]
    h1 h2 h3 h5
  have "snd (enterVehicle car_lot ''E1'' car 5) = car_lot"
    and "snd (exitVehicle car_lot 7 ''X1'' False 5 5) = car_lot"
    and "snd (snd (pay (example_service Pending) (card_request ''4242'') 5)) = example_service Failed"
    and "snd (adjustInTimeForTest car_lot 7 30) = car_lot"
    by (simp_all add: get_example req_bill_card_request declined)
  with h1 h2 h3 h5 show ?thesis by simp
qed

subsection \<open>Occupancy and active tickets\<close>

lemma occupied_ids_Cons:
  "occupied_ids (x # xs) =
     (if isFree x then occupied_ids xs else insert (slot_id x) (occupied_ids xs))"
  by (simp add: occupied_ids_def)

lemma occupied_ids_subset: "occupied_ids xs \<subseteq> slot_id ` set xs"
  by (auto simp: occupied_ids_def)

lemma occupied_ids_reserve:
  "p < length xs \<Longrightarrow>
     occupied_ids (xs[p := (xs ! p)\<lparr>isFree := False\<rparr>]) = insert (slot_id (xs ! p)) (occupied_ids xs)"
proof (induction xs arbitrary: p)
  case Nil
  then show ?case by simp
next
  case (Cons x xs)
  show ?case
  proof (cases p)
    case 0
    then show ?thesis by (simp add: occupied_ids_Cons)
  next
    case (Suc q)
    with Cons.prems have "q < length xs" by simp
    from Cons.IH [OF this] Suc show ?thesis
      by (auto simp: occupied_ids_Cons)
  qed
qed

lemma occupied_ids_release:
  "p < length xs \<Longrightarrow> distinct (map slot_id xs) \<Longrightarrow>
     occupied_ids (xs[p := (xs ! p)\<lparr>isFree := True\<rparr>]) = occupied_ids xs - {slot_id (xs ! p)}"
proof (induction xs arbitrary: p)
  case Nil
  then show ?case by simp
next
  case (Cons x xs)
  from Cons.prems(2) have fresh: "slot_id x \<notin> occupied_ids xs"
    using occupied_ids_subset [of xs] by auto
  show ?case
  proof (cases p)
    case 0
    with fresh show ?thesis by (simp add: occupied_ids_Cons)
  next
    case (Suc q)
    with Cons.prems have q: "q < length xs" "distinct (map slot_id xs)" by simp_all
    have "xs ! q \<in> set xs" using q(1) by simp
    then have "slot_id (xs ! q) \<in> slot_id ` set xs" by (rule imageI)
    with Cons.prems(2) have ne: "slot_id x \<noteq> slot_id (xs ! q)" by auto
    have "occupied_ids ((x # xs)[p := ((x # xs) ! p)\<lparr>isFree := True\<rparr>])
        = (if isFree x then occupied_ids xs - {slot_id (xs ! q)}
           else insert (slot_id x) (occupied_ids xs - {slot_id (xs ! q)}))"
      using Cons.IH [OF q] Suc by (simp add: occupied_ids_Cons)
    also have "\<dots> = occupied_ids (x # xs) - {slot_id ((x # xs) ! p)}"
      using ne Suc by (simp add: occupied_ids_Cons insert_Diff_if)
    finally show ?thesis .
  qed
qed

lemma occupied_count_ids:
  assumes "distinct (map slot_id xs)"
  shows "length (filter (\<lambda>s. \<not> isFree s) xs) = card (occupied_ids xs)"
proof -
  have "distinct (map slot_id (filter (\<lambda>s. \<not> isFree s) xs))"
    using assms by (rule distinct_map_filter)
  then have "card (occupied_ids xs) = length (map slot_id (filter (\<lambda>s. \<not> isFree s) xs))"
    unfolding occupied_ids_def by (rule distinct_card)
  then show ?thesis by simp
qed

lemma lot_inv_count:
  assumes "lot_inv n lot"
  shows "occupied_count lot = activeCount lot"
proof -
  let ?g = "\<lambda>kv. tk_slotId (snd kv)"
  from assms have ids: "distinct (map slot_id (all_slots (floors lot)))"
    and tks: "distinct (map ?g (active lot))"
    and same: "?g ` set (active lot) = occupied_ids (all_slots (floors lot))"
    by (simp_all add: lot_inv_def)
  have "occupied_count lot = card (occupied_ids (all_slots (floors lot)))"
    unfolding occupied_count_def using ids by (rule occupied_count_ids)
  also have "\<dots> = card (set (map ?g (active lot)))" using same by simp
  also have "\<dots> = length (map ?g (active lot))" using tks by (rule distinct_card)
  finally show ?thesis by (simp add: activeCount_def)
qed

lemma free_slot_not_occupied:
  assumes "distinct (map slot_id xs)" and "p < length xs" and "isFree (xs ! p)"
  shows "slot_id (xs ! p) \<notin> occupied_ids xs"
proof
  assume "slot_id (xs ! p) \<in> occupied_ids xs"
  then obtain y where y: "y \<in> set xs" "\<not> isFree y" "slot_id y = slot_id (xs ! p)"
    by (auto simp: occupied_ids_def)
  from assms(1) have "inj_on slot_id (set xs)" by (simp add: distinct_map)
  moreover have "xs ! p \<in> set xs" using assms(2) by simp
  ultimately have "y = xs ! p" using y(1,3) by (auto dest: inj_onD)
  with y(2) assms(3) show False by simp
qed

lemma um_erase_set:
  "distinct (map fst m) \<Longrightarrow> um_find m k = Some v \<Longrightarrow> set (um_erase k m) = set m - {(k, v)}"
  by (auto simp: um_erase_def um_find_def dest: eq_key_imp_eq_value)

lemma um_emplace_fresh:
  "k \<notin> fst ` set m \<Longrightarrow> um_emplace k v m = m @ [(k, v)]"
  by (simp add: um_emplace_def map_of_eq_None_iff)

text \<open>
  The counter of 64 bits issues \<open>1, 2, ...\<close>; the first \<open>2^64\<close> identifiers, the last of
  which is 0, are pairwise distinct.
\<close>

lemma ticket_id_fresh:
  assumes "1 \<le> j" and "j \<le> n" and "n < 2 ^ 64"
  shows "(word_of_nat j :: 64 word) \<noteq> word_of_nat (Suc n)"
proof
  define m where "m = Suc n"
  assume "(word_of_nat j :: 64 word) = word_of_nat (Suc n)"
  then have "unat (word_of_nat j :: 64 word) = unat (word_of_nat m :: 64 word)"
    by (simp only: m_def)
  then have eq: "j mod 2 ^ 64 = m mod 2 ^ 64" by (simp add: unat_of_nat)
  from assms have j: "j mod 2 ^ 64 = j" by simp
  show False
  proof (cases "m < 2 ^ 64")
    case True
    then have "m mod 2 ^ 64 = m" by simp
    with eq j assms(2) show False by (simp add: m_def)
  next
    case False
    with assms(3) have "m = 2 ^ 64" by (simp add: m_def)
    then have "m mod 2 ^ 64 = 0" by simp
    with eq j assms(1) show False by simp
  qed
qed

lemma enter_preserves_inv:
  assumes inv: "lot_inv n lot"
    and room: "n < 2 ^ 64"
    and ok: "enterVehicle lot gate v now = (Inr t, lot')"
  shows "lot_inv (Suc n) lot'"
proof -
  let ?xs = "all_slots (floors lot)"
  let ?g = "\<lambda>kv. tk_slotId (snd kv)"
  let ?tid = "nextId (ticketSvc lot)"
  from enter_success_shape [OF ok] obtain f i tk
    where fi: "f < length (floors lot)" "i < length (slots (floors lot ! f))"
      and free: "isFree (slots (floors lot ! f) ! i)"
      and sid: "tk_slotId tk = slot_id (slots (floors lot ! f) ! i)"
      and lot': "lot' = lot\<lparr>floors := set_isFree (floors lot) f i False,
                      active := um_emplace ?tid tk (active lot),
                      ticketSvc := (ticketSvc lot)\<lparr>nextId := ?tid + 1\<rparr>\<rparr>"
    by blast
  from all_slots_set_isFree [OF fi, of False] obtain p
    where p: "p < length ?xs" "?xs ! p = slots (floors lot ! f) ! i"
      "all_slots (set_isFree (floors lot) f i False) = ?xs[p := (?xs ! p)\<lparr>isFree := False\<rparr>]"
    by blast
  from inv have ids: "distinct (map slot_id ?xs)"
    and keys: "distinct (map fst (active lot))"
    and tks: "distinct (map ?g (active lot))"
    and same: "?g ` set (active lot) = occupied_ids ?xs"
    and counter: "?tid = word_of_nat (Suc n)"
    and issued: "\<forall>kv \<in> set (active lot). \<exists>j. 1 \<le> j \<and> j \<le> n \<and> fst kv = word_of_nat j"
    by (simp_all add: lot_inv_def)
  have sid': "tk_slotId tk = slot_id (?xs ! p)" by (simp only: sid p(2))
  have "isFree (?xs ! p)" using free by (simp only: p(2))
  with ids p(1) have new_slot: "slot_id (?xs ! p) \<notin> occupied_ids ?xs"
    by (rule free_slot_not_occupied)
  have fresh: "?tid \<notin> fst ` set (active lot)"
  proof
    assume "?tid \<in> fst ` set (active lot)"
    then obtain kv where kv: "kv \<in> set (active lot)" "fst kv = ?tid" by auto
    with issued obtain j where j: "1 \<le> j" "j \<le> n" "fst kv = word_of_nat j" by blast
    from ticket_id_fresh [OF j(1,2) room] j(3) kv(2) counter show False by simp
  qed
  then have act: "active lot' = active lot @ [(?tid, tk)]"
    by (simp add: lot' um_emplace_fresh)
  have fl: "all_slots (floors lot') = ?xs[p := (?xs ! p)\<lparr>isFree := False\<rparr>]"
    by (simp add: lot' p(3))
  have occ: "occupied_ids (all_slots (floors lot')) = insert (slot_id (?xs ! p)) (occupied_ids ?xs)"
    unfolding fl using p(1) by (rule occupied_ids_reserve)
  have next_id: "nextId (ticketSvc lot') = word_of_nat (Suc (Suc n))"
    by (simp add: lot' counter)
  have 1: "distinct (map slot_id (all_slots (floors lot')))"
    unfolding fl using ids by (simp only: slot_ids_update)
  have 2: "distinct (map fst (active lot'))"
    using keys fresh by (simp add: act)
  have 3: "distinct (map ?g (active lot'))"
    using tks new_slot same by (simp add: act sid')
  have 4: "?g ` set (active lot') = occupied_ids (all_slots (floors lot'))"
    using same by (simp add: act occ sid')
  have 5: "\<forall>kv \<in> set (active lot'). \<exists>j. 1 \<le> j \<and> j \<le> Suc n \<and> fst kv = word_of_nat j"
  proof
    fix kv
    assume "kv \<in> set (active lot')"
    then consider "kv \<in> set (active lot)" | "kv = (?tid, tk)" by (auto simp: act)
    then show "\<exists>j. 1 \<le> j \<and> j \<le> Suc n \<and> fst kv = word_of_nat j"
    proof cases
      case 1
      with issued obtain j where "1 \<le> j" "j \<le> n" "fst kv = word_of_nat j" by blast
      then have "1 \<le> j \<and> j \<le> Suc n \<and> fst kv = word_of_nat j" by simp
      then show ?thesis ..
    next
      case 2
      then have "1 \<le> Suc n \<and> Suc n \<le> Suc n \<and> fst kv = word_of_nat (Suc n)"
        by (simp add: counter)
      then show ?thesis ..
    qed
  qed
  from 1 2 3 4 5 next_id show ?thesis by (simp add: lot_inv_def)
qed

lemma exit_preserves_inv:
  assumes inv: "lot_inv n lot"
    and ok: "exitVehicle lot tid gate lost now billNow = (Inr bill, lot')"
  shows "lot_inv n lot'"
proof -
  let ?xs = "all_slots (floors lot)"
  let ?g = "\<lambda>kv. tk_slotId (snd kv)"
  from exit_success_shape [OF ok] obtain tk f i psvc
    where tk: "um_find (active lot) tid = Some tk"
      and fi: "f < length (floors lot)" "i < length (slots (floors lot ! f))"
      and sid: "slot_id (slots (floors lot ! f) ! i) = tk_slotId tk"
      and lot': "lot' = lot\<lparr>active := um_erase tid (active lot),
                      floors := set_isFree (floors lot) f i True, paymentSvc := psvc\<rparr>"
    by blast
  from all_slots_set_isFree [OF fi, of True] obtain p
    where p: "p < length ?xs" "?xs ! p = slots (floors lot ! f) ! i"
      "all_slots (set_isFree (floors lot) f i True) = ?xs[p := (?xs ! p)\<lparr>isFree := True\<rparr>]"
    by blast
  from inv have ids: "distinct (map slot_id ?xs)"
    and keys: "distinct (map fst (active lot))"
    and tks: "distinct (map ?g (active lot))"
    and same: "?g ` set (active lot) = occupied_ids ?xs"
    and counter: "nextId (ticketSvc lot) = word_of_nat (Suc n)"
    and issued: "\<forall>kv \<in> set (active lot). \<exists>j. 1 \<le> j \<and> j \<le> n \<and> fst kv = word_of_nat j"
    by (simp_all add: lot_inv_def)
  have sid': "slot_id (?xs ! p) = tk_slotId tk" by (simp only: sid p(2))
  have act: "active lot' = um_erase tid (active lot)" by (simp add: lot')
  have rest: "set (active lot') = set (active lot) - {(tid, tk)}"
    unfolding act using keys tk by (rule um_erase_set)
  have member: "(tid, tk) \<in> set (active lot)"
    using tk by (simp add: um_find_def map_of_SomeD)
  from tks have inj: "inj_on ?g (set (active lot))" by (simp add: distinct_map)
  have image: "?g ` set (active lot') = ?g ` set (active lot) - {tk_slotId tk}"
  proof -
    have "?g ` (set (active lot) - {(tid, tk)}) = ?g ` set (active lot) - ?g ` {(tid, tk)}"
      using inj member by (intro inj_on_image_set_diff [where C = "set (active lot)"]) auto
    then show ?thesis by (simp add: rest)
  qed
  have fl: "all_slots (floors lot') = ?xs[p := (?xs ! p)\<lparr>isFree := True\<rparr>]"
    by (simp add: lot' p(3))
  have occ: "occupied_ids (all_slots (floors lot')) = occupied_ids ?xs - {slot_id (?xs ! p)}"
    unfolding fl using p(1) ids by (rule occupied_ids_release)
  have next_id: "nextId (ticketSvc lot') = word_of_nat (Suc n)" by (simp add: lot' counter)
  have 1: "distinct (map slot_id (all_slots (floors lot')))"
    unfolding fl using ids by (simp only: slot_ids_update)
  have 2: "distinct (map fst (active lot'))"
    unfolding act um_erase_def using keys by (rule distinct_map_filter)
  have 3: "distinct (map ?g (active lot'))"
    unfolding act um_erase_def using tks by (rule distinct_map_filter)
  have 4: "?g ` set (active lot') = occupied_ids (all_slots (floors lot'))"
    by (simp only: image same occ sid')
  have 5: "\<forall>kv \<in> set (active lot'). \<exists>j. 1 \<le> j \<and> j \<le> n \<and> fst kv = word_of_nat j"
    using issued by (simp add: rest)
  from 1 2 3 4 5 next_id show ?thesis by (simp add: lot_inv_def)
qed

lemma perform_slot_ids:
  assumes "perform lot c = Some lot'"
  shows "map slot_id (all_slots (floors lot')) = map slot_id (all_slots (floors lot))"
proof (cases c)
  case (Enter gate v now)
  with assms obtain t where "enterVehicle lot gate v now = (Inr t, lot')"
    by (auto split: prod.splits sum.splits)
  from enter_success_shape [OF this] show ?thesis
    by (auto simp: set_isFree_slot_ids)
next
  case (Exit tid gate lost now billNow)
  with assms obtain bill where "exitVehicle lot tid gate lost now billNow = (Inr bill, lot')"
    by (auto split: prod.splits sum.splits)
  from exit_success_shape [OF this] show ?thesis
    by (auto simp: set_isFree_slot_ids)
qed

lemma enter_calls_Cons:
  "enter_calls (c # cs) = (if is_Enter c then Suc (enter_calls cs) else enter_calls cs)"
  by (simp add: enter_calls_def)

lemma perform_inv:
  assumes "lot_inv n lot" and "n + enter_calls [c] \<le> 2 ^ 64"
    and "perform lot c = Some lot'"
  shows "lot_inv (n + enter_calls [c]) lot'"
proof (cases c)
  case (Enter gate v now)
  with assms(3) obtain t where ok: "enterVehicle lot gate v now = (Inr t, lot')"
    by (auto split: prod.splits sum.splits)
  from assms(2) Enter have "n < 2 ^ 64" by (simp add: enter_calls_def)
  from enter_preserves_inv [OF assms(1) this ok] Enter
  show ?thesis by (simp add: enter_calls_def)
next
  case (Exit tid gate lost now billNow)
  with assms(3) obtain bill where "exitVehicle lot tid gate lost now billNow = (Inr bill, lot')"
    by (auto split: prod.splits sum.splits)
  from exit_preserves_inv [OF assms(1) this] Exit show ?thesis
    by (simp add: enter_calls_def)
qed

lemma run_calls_inv:
  "lot_inv n lot \<Longrightarrow> n + enter_calls cs \<le> 2 ^ 64 \<Longrightarrow>
   run_calls lot cs = Some lot' \<Longrightarrow>
     lot_inv (n + enter_calls cs) lot' \<and>
     map slot_id (all_slots (floors lot')) = map slot_id (all_slots (floors lot))"
proof (induction cs arbitrary: lot n)
  case Nil
  then show ?case by (simp add: enter_calls_def)
next
  case (Cons c cs)
  from Cons.prems(3) obtain mid where mid: "perform lot c = Some mid"
    and rest: "run_calls mid cs = Some lot'"
    by (auto split: option.splits)
  have split: "enter_calls (c # cs) = enter_calls [c] + enter_calls cs"
    by (simp add: enter_calls_def)
  with Cons.prems(2) have "n + enter_calls [c] \<le> 2 ^ 64" by simp
  from perform_inv [OF Cons.prems(1) this mid]
  have inv: "lot_inv (n + enter_calls [c]) mid" .
  from Cons.prems(2) split have "n + enter_calls [c] + enter_calls cs \<le> 2 ^ 64" by simp
  from Cons.IH [OF inv this rest] perform_slot_ids [OF mid] show ?case
    by (simp add: split add.assoc)
qed

lemma enter_calls_take: "enter_calls (take n cs) \<le> enter_calls cs"
proof -
  have "enter_calls cs = enter_calls (take n cs) + enter_calls (drop n cs)"
    unfolding enter_calls_def by (simp flip: length_append filter_append)
  then show ?thesis by simp
qed

lemma fold_floors:
  "fold (\<lambda>f acc. fold g (slots f) acc) fs acc = fold g (all_slots fs) acc"
  by (induction fs arbitrary: acc) (simp_all add: all_slots_def)

lemma fold_count:
  "fold (\<lambda>s (freeCnt, usedCnt, total).
           if isFree s then (freeCnt + 1, usedCnt, total + 1)
           else (freeCnt, usedCnt + 1, total + 1)) xs (a, b, c)
     = (a + word_of_nat (length (filter isFree xs)),
        b + word_of_nat (length (filter (\<lambda>s. \<not> isFree s) xs)),
        c + word_of_nat (length xs) :: cint)"
  by (induction xs arbitrary: a b c) simp_all

lemma occupancy_eq:
  "occupancy lot =
     (word_of_nat (length (filter isFree (all_slots (floors lot)))),
      word_of_nat (occupied_count lot),
      word_of_nat (length (all_slots (floors lot))))"
  by (simp add: occupancy_def fold_floors fold_count occupied_count_def)

lemma free_plus_occupied:
  "length (filter isFree (all_slots (floors lot))) + occupied_count lot
     = length (all_slots (floors lot))"
  unfolding occupied_count_def by (rule sum_length_filter_compl)

lemma sint_count: "n < 2 ^ 31 \<Longrightarrow> sint (word_of_nat n :: cint) = int n"
  by (simp add: signed_of_nat signed_take_bit_int_eq_self)

lemma configure_inv:
  assumes "\<forall>s\<in>set (all_slots fs). isFree s" and "distinct (map slot_id (all_slots fs))"
  shows "lot_inv 0 (configure lot0 fs)"
proof -
  from assms(1) have "filter (\<lambda>s. \<not> isFree s) (all_slots fs) = []"
    by (simp add: filter_empty_conv)
  then show ?thesis using assms(2)
    by (simp add: lot_inv_def configure_def occupied_ids_def)
qed

lemma run_calls_take:
  "run_calls lot cs = Some final \<Longrightarrow> \<exists>mid. run_calls lot (take n cs) = Some mid"
proof (induction cs arbitrary: lot n)
  case Nil
  then show ?case by simp
next
  case (Cons c cs)
  from Cons.prems obtain next_lot where step: "perform lot c = Some next_lot"
    and rest: "run_calls next_lot cs = Some final"
    by (auto split: option.splits)
  show ?case
  proof (cases n)
    case 0
    then show ?thesis by simp
  next
    case (Suc m)
    from Cons.IH [OF rest, of m] step Suc show ?thesis by simp
  qed
qed

lemma run_calls_append:
  "run_calls lot (xs @ ys) =
     (case run_calls lot xs of None \<Rightarrow> None | Some mid \<Rightarrow> run_calls mid ys)"
  by (induction xs arbitrary: lot) (simp_all split: option.split)

lemma enter_calls_in_and_out: "enter_calls (concat (map in_and_out ks)) = length ks"
  by (induction ks) (simp_all add: enter_calls_def in_and_out_def)

lemma wrap_calls_count: "enter_calls wrap_calls = 2 ^ 64 + 1"
proof -
  define ks :: "nat list" where "ks = [2 ..< 2 ^ 64 + 1]"
  have len: "length ks = 2 ^ 64 - 1" unfolding ks_def by (simp only: length_upt)
  have calls: "wrap_calls = Enter ''E1'' bike 0 # concat (map in_and_out ks) @ [Enter ''E1'' bike 0]"
    unfolding ks_def by (rule wrap_calls_def)
  have "enter_calls (Enter ''E1'' bike 0 # concat (map in_and_out ks) @ [Enter ''E1'' bike 0])
      = Suc (enter_calls (concat (map in_and_out ks)) + 1)"
    by (simp add: enter_calls_def)
  then have "enter_calls wrap_calls = Suc (enter_calls (concat (map in_and_out ks)) + 1)"
    by (simp only: calls)
  then show ?thesis by (simp add: enter_calls_in_and_out len)
qed

lemma wrap_first:
  "run_calls (configure ParkingLot_init wrap_floors) [Enter ''E1'' bike 0]
     = Some (wrap_state 2 \<lparr>bills = [], nextBill = 1\<rparr>)"
  by (simp add: wrap_state_def wrap_floors_def configure_def ParkingLot_init_def reset_def
      enterVehicle_def findFreeIndex_def int_of_size_def set_isFree_def openTicket_def
      um_emplace_def bike_def Let_def)

lemma wrap_step:
  assumes "2 \<le> k" and "k \<le> 2 ^ 64"
  shows "\<exists>svc'. run_calls (wrap_state k svc) (in_and_out k) = Some (wrap_state (Suc k) svc')"
proof -
  let ?tid = "word_of_nat k :: 64 word"
  from assms have "1 \<le> (1 :: nat)" "1 \<le> k - 1" "k - 1 < 2 ^ 64" by simp_all
  from ticket_id_fresh [OF this] assms(1) have ne: "?tid \<noteq> 1" "1 \<noteq> ?tid"
    by auto
  let ?tk = "\<lparr>tk_id = ?tid, tk_entryGateId = ''E1'', tk_inTime = 0, tk_slotId = ''B'',
              tk_vtype = Bike, tk_stype = TwoWheeler, tk_vehicleReg = ''UP80 HM 8086''\<rparr>"
  let ?mid = "(wrap_state k svc)
      \<lparr>floors := set_isFree (set_isFree wrap_floors 0 0 False) 0 1 False,
       active := active (wrap_state k svc) @ [(?tid, ?tk)],
       ticketSvc := \<lparr>nextId = ?tid + 1\<rparr>\<rparr>"
  have enter: "enterVehicle (wrap_state k svc) ''E1'' bike 0 = (Inr ?tid, ?mid)"
    using ne
    by (simp add: wrap_state_def wrap_floors_def enterVehicle_def findFreeIndex_def
        int_of_size_def set_isFree_def openTicket_def um_emplace_def bike_def Let_def)
  have found: "um_find (active ?mid) ?tid = Some ?tk"
    using ne by (simp add: wrap_state_def um_find_def)
  have pos: "findSlotById_from (floors ?mid) (tk_slotId ?tk) 0 = Some (0, 1)"
    by (simp add: wrap_floors_def set_isFree_def)
  obtain bill svc' where exit_ok: "exitVehicle ?mid ?tid ''X1'' False 0 0 =
      (Inr bill,
       ?mid\<lparr>active := um_erase ?tid (active ?mid),
            floors := set_isFree (floors ?mid) 0 1 True, paymentSvc := svc'\<rparr>)"
    unfolding exitVehicle_found [OF found pos] by blast
  have restored: "?mid\<lparr>active := um_erase ?tid (active ?mid),
            floors := set_isFree (floors ?mid) 0 1 True, paymentSvc := svc'\<rparr>
      = wrap_state (Suc k) svc'"
    using ne by (simp add: wrap_state_def wrap_floors_def set_isFree_def um_erase_def)
  have "run_calls (wrap_state k svc) (in_and_out k) = Some (wrap_state (Suc k) svc')"
    by (simp only: in_and_out_def run_calls.simps perform.simps enter exit_ok restored
        prod.case sum.case option.case)
  then show ?thesis ..
qed

lemma wrap_loop:
  "2 \<le> k \<Longrightarrow> k + d \<le> 2 ^ 64 + 1 \<Longrightarrow>
     \<exists>svc'. run_calls (wrap_state k svc) (concat (map in_and_out [k ..< k + d]))
              = Some (wrap_state (k + d) svc')"
proof (induction d)
  case 0
  have "run_calls (wrap_state k svc) (concat (map in_and_out [k ..< k + 0]))
      = Some (wrap_state (k + 0) svc)" by simp
  then show ?case ..
next
  case (Suc d)
  from Suc.prems have "k + d \<le> 2 ^ 64 + 1" by simp
  from Suc.IH [OF Suc.prems(1) this] obtain svc1
    where first: "run_calls (wrap_state k svc) (concat (map in_and_out [k ..< k + d]))
              = Some (wrap_state (k + d) svc1)" by blast
  from Suc.prems have "2 \<le> k + d" "k + d \<le> 2 ^ 64" by simp_all
  from wrap_step [OF this, of svc1] obtain svc2
    where second: "run_calls (wrap_state (k + d) svc1) (in_and_out (k + d))
              = Some (wrap_state (Suc (k + d)) svc2)" by blast
  have "concat (map in_and_out [k ..< k + Suc d])
      = concat (map in_and_out [k ..< k + d]) @ in_and_out (k + d)"
    by simp
  then have "run_calls (wrap_state k svc) (concat (map in_and_out [k ..< k + Suc d]))
      = Some (wrap_state (k + Suc d) svc2)"
    by (simp only: run_calls_append first second option.case add_Suc_right)
  then show ?case ..
qed

lemma wrap_last:
  "\<exists>lot. run_calls (wrap_state (2 ^ 64 + 1) svc) [Enter ''E1'' bike 0] = Some lot \<and>
         occupied_count lot = 2 \<and> activeCount lot = 1"
proof -
  have "(word_of_nat (2 ^ 64 + 1) :: 64 word) = 1" by simp
  then have start: "wrap_state (2 ^ 64 + 1) svc = wrap_state 1 svc"
    by (simp add: wrap_state_def)
  show ?thesis
    unfolding start
    by (simp add: wrap_state_def wrap_floors_def enterVehicle_def findFreeIndex_def
        int_of_size_def set_isFree_def openTicket_def um_emplace_def bike_def Let_def
        occupied_count_def all_slots_def activeCount_def)
qed

lemma wrap_run:
  "map_option (\<lambda>lot. (occupied_count lot, activeCount lot))
     (run_calls (configure ParkingLot_init wrap_floors) wrap_calls) = Some (2, 1)"
proof -
  let ?start = "configure ParkingLot_init wrap_floors"
  define top :: nat where "top = 2 ^ 64 + 1"
  have "(2 :: nat) \<le> 2" "2 + (top - 2) \<le> (2 ^ 64 + 1 :: nat)"
    by (simp_all add: top_def)
  from wrap_loop [OF this, of "\<lparr>bills = [], nextBill = 1\<rparr>"] obtain svc'
    where "run_calls (wrap_state 2 \<lparr>bills = [], nextBill = 1\<rparr>)
             (concat (map in_and_out [2 ..< 2 + (top - 2)]))
           = Some (wrap_state (2 + (top - 2)) svc')" by blast
  moreover have "2 + (top - 2) = top" by (simp add: top_def)
  ultimately have loop: "run_calls (wrap_state 2 \<lparr>bills = [], nextBill = 1\<rparr>)
             (concat (map in_and_out [2 ..< top]))
           = Some (wrap_state top svc')" by (simp only:)
  from wrap_last [of svc'] obtain lot
    where last: "run_calls (wrap_state top svc') [Enter ''E1'' bike 0] = Some lot"
      and counts: "occupied_count lot = 2" "activeCount lot = 1"
    unfolding top_def by blast
  have "wrap_calls = Enter ''E1'' bike 0 # concat (map in_and_out [2 ..< top])
      @ [Enter ''E1'' bike 0]"
    unfolding top_def by (rule wrap_calls_def)
  then have calls: "wrap_calls = [Enter ''E1'' bike 0] @ concat (map in_and_out [2 ..< top])
      @ [Enter ''E1'' bike 0]"
    by (simp only: append_Cons append_Nil)
  have "run_calls ?start ([Enter ''E1'' bike 0] @ concat (map in_and_out [2 ..< top])
      @ [Enter ''E1'' bike 0]) = Some lot"
    by (simp only: run_calls_append wrap_first loop last option.case)
  then have "run_calls ?start wrap_calls = Some lot"
    by (simp only: calls)
  with counts show ?thesis by simp
qed

text \<open>
  C1 (as amended). For every lot, the three counters of \<open>occupancy\<close> are the number of
  free slots, the number of slots with \<open>isFree == false\<close> and the number of slots, as
  \<open>int\<close>s of 32 bits, and the free count plus the used count is the total; on a lot of
  fewer than \<open>2^31\<close> slots the counters are those numbers exactly. Start from a lot
  configured with a layout whose slots are all free and carry pairwise distinct
  identifiers, and take any sequence of calls of \<open>enterVehicle\<close> and \<open>exitVehicle\<close> that
  all succeed, at most \<open>2^64\<close> of them calls of \<open>enterVehicle\<close>. Then after every prefix
  of the sequence the number of slots with \<open>isFree == false\<close> equals the number of
  entries in the active-ticket table, which is the used count of \<open>occupancy\<close> (as an
  \<open>int\<close> of 32 bits), and the lot has the slots of the layout.
\<close>

theorem occupancy_matches_active_tickets:
  "(case occupancy lot of
      (freeCnt, usedCnt, totalCnt) \<Rightarrow>
        freeCnt + usedCnt = totalCnt \<and>
        usedCnt = word_of_nat (occupied_count lot) \<and>
        totalCnt = word_of_nat (length (all_slots (floors lot))) \<and>
        (length (all_slots (floors lot)) < 2 ^ 31 \<longrightarrow>
           sint freeCnt + sint usedCnt = sint totalCnt \<and>
           sint usedCnt = int (occupied_count lot) \<and>
           sint totalCnt = int (length (all_slots (floors lot))))) \<and>
   ((\<forall>s\<in>set (all_slots fs). isFree s) \<and> distinct (map slot_id (all_slots fs)) \<and>
    enter_calls cs \<le> 2 ^ 64 \<and> run_calls (configure lot0 fs) cs = Some final \<longrightarrow>
      (\<exists>mid. run_calls (configure lot0 fs) (take n cs) = Some mid \<and>
             occupied_count mid = activeCount mid \<and>
             map slot_id (all_slots (floors mid)) = map slot_id (all_slots fs) \<and>
             (case occupancy mid of
                (freeCnt, usedCnt, totalCnt) \<Rightarrow>
                  usedCnt = word_of_nat (activeCount mid) \<and> freeCnt + usedCnt = totalCnt \<and>
                  totalCnt = word_of_nat (length (all_slots fs)))))"
proof (intro conjI impI)
  let ?free = "length (filter isFree (all_slots (floors lot)))"
  let ?total = "length (all_slots (floors lot))"
  have sum: "?free + occupied_count lot = ?total" by (rule free_plus_occupied)
  then have "(word_of_nat (?free + occupied_count lot) :: cint) = word_of_nat ?total"
    by (simp only:)
  then have wsum: "(word_of_nat ?free :: cint) + word_of_nat (occupied_count lot)
      = word_of_nat ?total"
    by (simp only: of_nat_add)
  have exact: "sint (word_of_nat ?free :: cint) + sint (word_of_nat (occupied_count lot) :: cint)
        = sint (word_of_nat ?total :: cint) \<and>
      sint (word_of_nat (occupied_count lot) :: cint) = int (occupied_count lot) \<and>
      sint (word_of_nat ?total :: cint) = int ?total"
    if small: "?total < 2 ^ 31"
  proof -
    from sum small have "?free < 2 ^ 31" "occupied_count lot < 2 ^ 31" by linarith+
    with small sum show ?thesis by (simp add: sint_count)
  qed
  show "case occupancy lot of
      (freeCnt, usedCnt, totalCnt) \<Rightarrow>
        freeCnt + usedCnt = totalCnt \<and>
        usedCnt = word_of_nat (occupied_count lot) \<and>
        totalCnt = word_of_nat (length (all_slots (floors lot))) \<and>
        (length (all_slots (floors lot)) < 2 ^ 31 \<longrightarrow>
           sint freeCnt + sint usedCnt = sint totalCnt \<and>
           sint usedCnt = int (occupied_count lot) \<and>
           sint totalCnt = int (length (all_slots (floors lot))))"
    unfolding occupancy_eq using wsum exact by (simp only: prod.case) blast
next
  assume hyps: "(\<forall>s\<in>set (all_slots fs). isFree s) \<and> distinct (map slot_id (all_slots fs)) \<and>
    enter_calls cs \<le> 2 ^ 64 \<and> run_calls (configure lot0 fs) cs = Some final"
  then have free: "\<forall>s\<in>set (all_slots fs). isFree s"
    and ids: "distinct (map slot_id (all_slots fs))"
    and count: "enter_calls cs \<le> 2 ^ 64"
    and run: "run_calls (configure lot0 fs) cs = Some final"
    by simp_all
  from run_calls_take [OF run] obtain mid
    where mid: "run_calls (configure lot0 fs) (take n cs) = Some mid" by blast
  have start: "lot_inv 0 (configure lot0 fs)" using free ids by (rule configure_inv)
  from enter_calls_take [of n cs] count have "0 + enter_calls (take n cs) \<le> 2 ^ 64"
    by simp
  from run_calls_inv [OF start this mid]
  have inv: "lot_inv (0 + enter_calls (take n cs)) mid"
    and same: "map slot_id (all_slots (floors mid))
      = map slot_id (all_slots (floors (configure lot0 fs)))"
    by simp_all
  from same have slots: "map slot_id (all_slots (floors mid)) = map slot_id (all_slots fs)"
    by (simp add: configure_def)
  from slots have total: "length (all_slots (floors mid)) = length (all_slots fs)"
    by (rule map_eq_imp_length_eq)
  have same_count: "occupied_count mid = activeCount mid" using inv by (rule lot_inv_count)
  have "(word_of_nat (length (filter isFree (all_slots (floors mid))) + occupied_count mid) :: cint)
      = word_of_nat (length (all_slots (floors mid)))"
    by (simp only: free_plus_occupied)
  then have "(word_of_nat (length (filter isFree (all_slots (floors mid)))) :: cint)
      + word_of_nat (occupied_count mid) = word_of_nat (length (all_slots (floors mid)))"
    by (simp only: of_nat_add)
  then have "case occupancy mid of
      (freeCnt, usedCnt, totalCnt) \<Rightarrow>
        usedCnt = word_of_nat (activeCount mid) \<and> freeCnt + usedCnt = totalCnt \<and>
        totalCnt = word_of_nat (length (all_slots fs))"
    unfolding occupancy_eq by (simp only: prod.case same_count total)
  with mid slots same_count
  show "\<exists>mid. run_calls (configure lot0 fs) (take n cs) = Some mid \<and>
             occupied_count mid = activeCount mid \<and>
             map slot_id (all_slots (floors mid)) = map slot_id (all_slots fs) \<and>
             (case occupancy mid of
                (freeCnt, usedCnt, totalCnt) \<Rightarrow>
                  usedCnt = word_of_nat (activeCount mid) \<and> freeCnt + usedCnt = totalCnt \<and>
                  totalCnt = word_of_nat (length (all_slots fs)))"
    by (intro exI [of _ mid] conjI)
qed

text \<open>The definitions unfolded to evaluate a run of calls on a concrete lot.\<close>

lemmas eval_defs = configure_def ParkingLot_init_def reset_def enterVehicle_def exitVehicle_def
  findFreeIndex_def int_of_size_def set_isFree_def openTicket_def um_emplace_def um_find_def
  um_erase_def findSlotById_nolock_def createBill_def occupancy_def occupied_count_def
  all_slots_def activeCount_def bike_def car_def Let_def

lemma dup_run:
  "map_option (\<lambda>lot. (occupied_count lot, activeCount lot))
     (run_calls (configure ParkingLot_init dup_floors) dup_calls) = Some (1, 0)"
  by (simp add: dup_calls_def dup_floors_def eval_defs)

lemma big_floor_lot_total:
  "length (all_slots (floors big_floor_lot)) = 2 ^ 31 \<and>
   sint (snd (snd (occupancy big_floor_lot))) = - (2 ^ 31)"
proof -
  have len: "length (all_slots (floors big_floor_lot)) = 2147483648"
    by (simp add: big_floor_lot_def configure_def all_slots_def)
  have "sint (word_of_nat 2147483648 :: cint) = - 2147483648" by simp
  with len show ?thesis by (simp add: occupancy_eq)
qed

text \<open>
  Four runs. On a layout of two free two-wheeler slots that share the identifier \<open>A\<close>,
  two bikes enter, then both leave: each exit releases the first slot named \<open>A\<close>, so the
  second slot stays occupied while no ticket is active. A lot configured with an occupied
  slot has one occupied slot and no ticket. On the layout of the free slots \<open>A\<close> and \<open>B\<close>,
  the \<open>2^64 + 1\<close> entries of \<open>wrap_calls\<close> all succeed, and the last one is issued ticket 1
  again, which is still active: \<open>emplace\<close> inserts nothing, two slots are occupied and one
  ticket is active. On the floor of \<open>2^31\<close> slots the total reported by \<open>occupancy\<close> is
  \<open>-2^31\<close>.
\<close>

theorem occupancy_mismatch_counterexample:
  "list_all isFree (all_slots dup_floors) \<and> enter_calls dup_calls = 2 \<and>
   map_option (\<lambda>lot. (occupied_count lot, activeCount lot))
     (run_calls (configure ParkingLot_init dup_floors) dup_calls) = Some (1, 0) \<and>
   distinct (map slot_id (all_slots occupied_floors)) \<and>
   map_option (\<lambda>lot. (occupied_count lot, activeCount lot))
     (run_calls (configure ParkingLot_init occupied_floors) []) = Some (1, 0) \<and>
   list_all isFree (all_slots wrap_floors) \<and> distinct (map slot_id (all_slots wrap_floors)) \<and>
   enter_calls wrap_calls = 2 ^ 64 + 1 \<and>
   map_option (\<lambda>lot. (occupied_count lot, activeCount lot))
     (run_calls (configure ParkingLot_init wrap_floors) wrap_calls) = Some (2, 1) \<and>
   length (all_slots (floors big_floor_lot)) = 2 ^ 31 \<and>
   sint (snd (snd (occupancy big_floor_lot))) = - (2 ^ 31)"
proof -
  have "list_all isFree (all_slots dup_floors)" "enter_calls dup_calls = 2"
    by (simp_all add: dup_floors_def dup_calls_def all_slots_def enter_calls_def)
  moreover have "distinct (map slot_id (all_slots occupied_floors))"
    "map_option (\<lambda>lot. (occupied_count lot, activeCount lot))
       (run_calls (configure ParkingLot_init occupied_floors) []) = Some (1, 0)"
    by (simp_all add: occupied_floors_def eval_defs)
  moreover have "list_all isFree (all_slots wrap_floors)"
    "distinct (map slot_id (all_slots wrap_floors))"
    by (simp_all add: wrap_floors_def all_slots_def)
  ultimately show ?thesis
    using dup_run wrap_calls_count wrap_run big_floor_lot_total by (intro conjI) simp_all
qed

lemma example_run:
  "map_option (\<lambda>lot. (occupancy lot, occupied_count lot, activeCount lot))
     (run_calls example_lot example_calls) = Some ((2, 1, 3), 1, 1)"
  by (simp add: example_calls_def example_lot_def example_floors_def eval_defs)

lemma example_run_2:
  "map_option (\<lambda>lot. (occupancy lot, occupied_count lot, activeCount lot))
     (run_calls example_lot (take 2 example_calls)) = Some ((1, 2, 3), 2, 2)"
  by (simp add: example_calls_def example_lot_def example_floors_def eval_defs)

text \<open>
  After a bike and a car entered the example lot: two occupied slots, two active
  tickets, and \<open>occupancy\<close> reports one free, two used, three in total.
\<close>

theorem occupancy_matches_active_tickets_witness:
  "list_all isFree (all_slots example_floors) \<and>
   distinct (map slot_id (all_slots example_floors)) \<and>
   enter_calls example_calls = 2 \<and>
   (\<exists>lot. run_calls example_lot (take 2 example_calls) = Some lot \<and>
          occupied_count lot = activeCount lot \<and> activeCount lot = 2 \<and>
          occupancy lot = (1, 2, 3) \<and> length (all_slots (floors lot)) = 3 \<and>
          sint (fst (occupancy lot)) + sint (fst (snd (occupancy lot)))
            = sint (snd (snd (occupancy lot))) \<and>
          sint (snd (snd (occupancy lot))) = int (length (all_slots (floors lot))))"
proof -
  have all_free: "list_all isFree (all_slots example_floors)"
    by (simp add: example_floors_def all_slots_def)
  then have free: "\<forall>s\<in>set (all_slots example_floors). isFree s"
    by (simp add: list_all_iff)
  have ids: "distinct (map slot_id (all_slots example_floors))"
    by (simp add: example_floors_def all_slots_def)
  have calls: "enter_calls example_calls = 2"
    by (simp add: example_calls_def enter_calls_def)
  then have few: "enter_calls example_calls \<le> 2 ^ 64" by simp
  from example_run obtain final
    where run: "run_calls (configure ParkingLot_init example_floors) example_calls = Some final"
    by (auto simp: example_lot_def)
  from example_run_2 obtain lot
    where lot: "run_calls example_lot (take 2 example_calls) = Some lot"
      and vals: "occupancy lot = (1, 2, 3)" "activeCount lot = 2"
    by auto
  note inst = occupancy_matches_active_tickets
    [of lot example_floors example_calls ParkingLot_init final 2]
  from inst free ids few run obtain mid
    where mid: "run_calls example_lot (take 2 example_calls) = Some mid"
      and count: "occupied_count mid = activeCount mid"
      and slots: "map slot_id (all_slots (floors mid)) = map slot_id (all_slots example_floors)"
    unfolding example_lot_def by blast
  from mid lot have same: "mid = lot" by simp
  from slots have "length (all_slots (floors mid)) = length (all_slots example_floors)"
    by (rule map_eq_imp_length_eq)
  then have len: "length (all_slots (floors lot)) = 3"
    by (simp add: same example_floors_def all_slots_def)
  then have small: "length (all_slots (floors lot)) < 2 ^ 31" by simp
  from inst [unfolded case_prod_beta] small
  have "sint (fst (occupancy lot)) + sint (fst (snd (occupancy lot)))
            = sint (snd (snd (occupancy lot)))"
    and "sint (snd (snd (occupancy lot))) = int (length (all_slots (floors lot)))"
    by blast+
  with lot count vals len same all_free ids calls show ?thesis by blast
qed

subsection \<open>Configuration\<close>

lemma load_slots_free:
  "load_slots xs = Inr ss \<Longrightarrow> length ss = length xs \<and> (\<forall>s\<in>set ss. isFree s)"
proof (induction xs arbitrary: ss)
  case Nil
  then show ?case by simp
next
  case (Cons js rest)
  from Cons.prems obtain sid t ss' where "load_slots rest = Inr ss'"
    and "ss = \<lparr>slot_id = sid, slot_type = t, isFree = True\<rparr> # ss'"
    by (auto split: sum.splits)
  with Cons.IH [of ss'] show ?case by simp
qed

lemma load_floors_checked:
  "load_floors jfs = Inr fs \<Longrightarrow>
     length fs = length jfs \<and>
     (\<forall>k<length jfs. \<exists>xs. must (jfs ! k) ''slots'' = Inr (JArray xs) \<and> xs \<noteq> [] \<and>
        length (slots (fs ! k)) = length xs \<and> (\<forall>s\<in>set (slots (fs ! k)). isFree s))"
proof (induction jfs arbitrary: fs)
  case Nil
  then show ?case by simp
next
  case (Cons jf rest)
  from Cons.prems obtain no ys ss fs' where slots: "must jf ''slots'' = Inr (JArray ys)"
    and ss: "load_slots ys = Inr ss" "ss \<noteq> []"
    and rest: "load_floors rest = Inr fs'" and fs: "fs = \<lparr>floorNo = no, slots = ss\<rparr> # fs'"
    by (auto split: sum.splits json.splits if_splits)
  from load_slots_free [OF ss(1)] ss(2)
  have first: "length ss = length ys" "ys \<noteq> []" "\<forall>s\<in>set ss. isFree s" by auto
  from Cons.IH [OF rest] have len: "length fs' = length rest"
    and others: "\<forall>k<length rest. \<exists>xs. must (rest ! k) ''slots'' = Inr (JArray xs) \<and> xs \<noteq> [] \<and>
        length (slots (fs' ! k)) = length xs \<and> (\<forall>s\<in>set (slots (fs' ! k)). isFree s)"
    by simp_all
  have "\<exists>xs. must ((jf # rest) ! k) ''slots'' = Inr (JArray xs) \<and> xs \<noteq> [] \<and>
        length (slots (fs ! k)) = length xs \<and> (\<forall>s\<in>set (slots (fs ! k)). isFree s)"
    if "k < length (jf # rest)" for k
  proof (cases k)
    case 0
    with slots first fs show ?thesis by simp
  next
    case (Suc m)
    with that have "m < length rest" by simp
    with others Suc fs show ?thesis by simp
  qed
  with len fs show ?case by simp
qed

lemma load_floors_empty_floor:
  "jf \<in> set jfs \<Longrightarrow> must jf ''slots'' = Inr (JArray []) \<Longrightarrow> \<exists>e. load_floors jfs = Inl e"
proof (induction jfs)
  case Nil
  then show ?case by simp
next
  case (Cons x rest)
  show ?case
  proof (cases "jf = x")
    case True
    with Cons.prems(2) show ?thesis
      by (simp split: sum.splits)
  next
    case False
    with Cons.prems have "jf \<in> set rest" by simp
    from Cons.IH [OF this Cons.prems(2)] obtain e where "load_floors rest = Inl e" ..
    then show ?thesis
      by (simp split: sum.splits json.splits)
  qed
qed

lemma loadConfigFromJson_checked:
  assumes "loadConfigFromJson j = Inr fs"
  shows "fs \<noteq> [] \<and>
    (\<exists>jfs. must j ''floors'' = Inr (JArray jfs) \<and> length fs = length jfs \<and>
       (\<forall>k<length jfs. \<exists>xs. must (jfs ! k) ''slots'' = Inr (JArray xs) \<and> xs \<noteq> [] \<and>
          length (slots (fs ! k)) = length xs \<and> (\<forall>s\<in>set (slots (fs ! k)). isFree s)))"
proof -
  from assms obtain jfs where "must j ''floors'' = Inr (JArray jfs)"
    and "load_floors jfs = Inr fs" and "fs \<noteq> []"
    by (auto simp: loadConfigFromJson_def split: sum.splits json.splits if_splits)
  with load_floors_checked [of jfs fs] show ?thesis by simp
qed

text \<open>
  C9 (as amended). \<open>configure\<close> installs the layout it is given, whatever it is, and
  resets the ticket table, the counter and the ledger; it rejects nothing. The loader
  \<open>loadConfigFromJson\<close> is where a configuration is rejected. A document whose \<open>floors\<close>
  array is empty is rejected with \<open>Config has zero floors\<close>. A document one of whose floors
  has an empty \<open>slots\<close> array is rejected (with the error of the first offending floor
  or slot). When the loader returns a layout, the layout has at least one floor and as
  many floors as the document, in the same order, and each floor has at least one slot
  and as many slots as its \<open>slots\<close> array, all of them free: no floor and no slot is
  dropped.
\<close>

theorem configuration_checks:
  "configure lot fs =
     lot\<lparr>floors := fs, active := [], ticketSvc := \<lparr>nextId = 1\<rparr>,
         paymentSvc := \<lparr>bills = [], nextBill = 1\<rparr>\<rparr> \<and>
   (must j ''floors'' = Inr (JArray []) \<longrightarrow>
      loadConfigFromJson j = Inl (runtime_error ''Config has zero floors'')) \<and>
   (must j ''floors'' = Inr (JArray jfs) \<and> jf \<in> set jfs \<and>
    must jf ''slots'' = Inr (JArray []) \<longrightarrow>
      (\<exists>e. loadConfigFromJson j = Inl e)) \<and>
   (\<forall>loaded. loadConfigFromJson j = Inr loaded \<longrightarrow>
      loaded \<noteq> [] \<and>
      (\<exists>xs. must j ''floors'' = Inr (JArray xs) \<and> length loaded = length xs \<and>
         (\<forall>k<length xs. \<exists>ys. must (xs ! k) ''slots'' = Inr (JArray ys) \<and> ys \<noteq> [] \<and>
            length (slots (loaded ! k)) = length ys \<and>
            (\<forall>s\<in>set (slots (loaded ! k)). isFree s))))"
proof (intro conjI allI impI)
  show "configure lot fs =
     lot\<lparr>floors := fs, active := [], ticketSvc := \<lparr>nextId = 1\<rparr>,
         paymentSvc := \<lparr>bills = [], nextBill = 1\<rparr>\<rparr>"
    by (simp add: configure_def reset_def)
next
  assume "must j ''floors'' = Inr (JArray [])"
  then show "loadConfigFromJson j = Inl (runtime_error ''Config has zero floors'')"
    by (simp add: loadConfigFromJson_def)
next
  assume "must j ''floors'' = Inr (JArray jfs) \<and> jf \<in> set jfs \<and>
    must jf ''slots'' = Inr (JArray [])"
  then have doc: "must j ''floors'' = Inr (JArray jfs)"
    and "jf \<in> set jfs" "must jf ''slots'' = Inr (JArray [])" by simp_all
  from load_floors_empty_floor [OF this(2,3)] obtain e where "load_floors jfs = Inl e" ..
  with doc have "loadConfigFromJson j = Inl e" by (simp add: loadConfigFromJson_def)
  then show "\<exists>e. loadConfigFromJson j = Inl e" ..
next
  fix loaded
  assume "loadConfigFromJson j = Inr loaded"
  from loadConfigFromJson_checked [OF this]
  show "loaded \<noteq> []"
    and "\<exists>xs. must j ''floors'' = Inr (JArray xs) \<and> length loaded = length xs \<and>
         (\<forall>k<length xs. \<exists>ys. must (xs ! k) ''slots'' = Inr (JArray ys) \<and> ys \<noteq> [] \<and>
            length (slots (loaded ! k)) = length ys \<and>
            (\<forall>s\<in>set (slots (loaded ! k)). isFree s))"
    by simp_all
qed

lemma load_example_json: "loadConfigFromJson example_json = Inr example_floors"
  by (simp add: loadConfigFromJson_def example_json_def example_floors_def must_def get_int_def
      get_string_def slotTypeFromString_def)

text \<open>
  The example document loads to the example layout, of two floors; the document with no
  floor and the one with an empty floor are rejected.
\<close>

theorem configuration_checks_witness:
  "loadConfigFromJson example_json = Inr example_floors \<and>
   example_floors \<noteq> [] \<and> length example_floors = 2 \<and>
   loadConfigFromJson no_floors_json = Inl (runtime_error ''Config has zero floors'') \<and>
   loadConfigFromJson empty_floor_json = Inl (runtime_error ''Floor 1 has no slots in config'')"
proof -
  from configuration_checks [of ParkingLot_init example_floors example_json] load_example_json
  have 1: "example_floors \<noteq> []" by simp
  have "must no_floors_json ''floors'' = Inr (JArray [])"
    by (simp add: no_floors_json_def must_def)
  with configuration_checks [of ParkingLot_init example_floors no_floors_json]
  have 2: "loadConfigFromJson no_floors_json = Inl (runtime_error ''Config has zero floors'')"
    by simp
  let ?jf = "JObject [(''floorNo'', JNumber 1), (''slots'', JArray [])]"
  have "must empty_floor_json ''floors'' = Inr (JArray [?jf])" "?jf \<in> set [?jf]"
    "must ?jf ''slots'' = Inr (JArray [])"
    by (simp_all add: empty_floor_json_def must_def)
  with configuration_checks [of ParkingLot_init example_floors empty_floor_json "[?jf]" ?jf]
  obtain e where "loadConfigFromJson empty_floor_json = Inl e" by blast
  moreover have "loadConfigFromJson empty_floor_json
      = Inl (runtime_error ''Floor 1 has no slots in config'') \<or>
      (\<exists>loaded. loadConfigFromJson empty_floor_json = Inr loaded)"
    by (simp add: loadConfigFromJson_def empty_floor_json_def must_def get_int_def to_string_def)
  ultimately have 3: "loadConfigFromJson empty_floor_json
      = Inl (runtime_error ''Floor 1 has no slots in config'')" by auto
  have "length example_floors = 2" by (simp add: example_floors_def)
  with 1 2 3 load_example_json show ?thesis by simp
qed

text \<open>
  \<open>configure\<close> installs a layout with no floor, and one whose floor has no slot.
\<close>

theorem configure_unchecked_counterexample:
  "floors (configure ParkingLot_init []) = [] \<and>
   floors (configure ParkingLot_init [\<lparr>floorNo = 1, slots = []\<rparr>]) = [\<lparr>floorNo = 1, slots = []\<rparr>]"
  by (simp add: configure_def)

end
